theory Spec2Isabelle
  imports Complex_Main "HOL-Library.AList" "HOL-Library.List_Lexorder" "HOL-Library.Char_ord"
    "HOL-Library.Log_Nat"
begin

section \<open>JavaScript values\<close>

text \<open>
  Schemas, messages and model replies are plain JSON data (\<open>any\<close> in the source). A
  JavaScript number is given by its exact rational value, a string by a list of 8-bit
  characters (code points below 256), an array by a list and an object by the list of
  its own properties in enumeration order, with pairwise distinct keys. \<open>undefined\<close>
  is not a JSON value: a property read that yields \<open>undefined\<close> is \<open>None\<close>.
\<close>

datatype json =
    JNull
  | JBool bool
  | JNum rat
  | JStr string
  | JArr "json list"
  | JObj "(string \<times> json) list"

type_synonym js_object = "(string \<times> json) list"

text \<open>Truthiness, as tested by \<open>if (x)\<close>, \<open>x ? a : b\<close> and \<open>x || d\<close>.\<close>

fun truthy :: "json \<Rightarrow> bool" where
  "truthy JNull = False"
| "truthy (JBool b) = b"
| "truthy (JNum n) = (n \<noteq> 0)"
| "truthy (JStr s) = (s \<noteq> [])"
| "truthy (JArr xs) = True"
| "truthy (JObj kvs) = True"

text \<open>\<open>typeof x === 'object'\<close>: objects, arrays and \<open>null\<close>.\<close>

fun typeof_object :: "json \<Rightarrow> bool" where
  "typeof_object JNull = True"
| "typeof_object (JArr xs) = True"
| "typeof_object (JObj kvs) = True"
| "typeof_object v = False"

subsection \<open>Own properties in enumeration order\<close>

text \<open>
  An ordinary object enumerates its array-index keys first, in ascending numeric order,
  and then its other string keys in the order of their creation. An array index is the
  canonical decimal form of an integer below \<open>2^32 - 1\<close>.
\<close>

definition is_digit :: "char \<Rightarrow> bool" where
  "is_digit c = (CHR ''0'' \<le> c \<and> c \<le> CHR ''9'')"

definition digit_val :: "char \<Rightarrow> nat" where
  "digit_val c = of_char c - of_char CHR ''0''"

definition decimal_val :: "string \<Rightarrow> nat" where
  "decimal_val s = foldl (\<lambda>n c. 10 * n + digit_val c) 0 s"

definition index_of_key :: "string \<Rightarrow> nat option" where
  "index_of_key k =
     (if k \<noteq> [] \<and> list_all is_digit k \<and> (k = ''0'' \<or> hd k \<noteq> CHR ''0'')
         \<and> length k \<le> 10 \<and> decimal_val k < 4294967295
      then Some (decimal_val k) else None)"

text \<open>Where a new array-index key \<open>i\<close> goes: before the first key that is not an array
  index or is a larger one.\<close>

fun insert_index :: "nat \<Rightarrow> string \<Rightarrow> json \<Rightarrow> js_object \<Rightarrow> js_object" where
  "insert_index i k v [] = [(k, v)]"
| "insert_index i k v ((k', v') # kvs) =
     (case index_of_key k' of
        None \<Rightarrow> (k, v) # (k', v') # kvs
      | Some j \<Rightarrow> if i < j then (k, v) # (k', v') # kvs
                  else (k', v') # insert_index i k v kvs)"

text \<open>\<open>obj[k]\<close>, \<open>obj[k] = v\<close>, \<open>delete obj[k]\<close>, \<open>Object.keys(obj)\<close>.\<close>

definition obj_get :: "js_object \<Rightarrow> string \<Rightarrow> json option" where
  "obj_get kvs k = map_of kvs k"

definition obj_set :: "js_object \<Rightarrow> string \<Rightarrow> json \<Rightarrow> js_object" where
  "obj_set kvs k v =
     (if k \<in> set (map fst kvs) then AList.update k v kvs
      else (case index_of_key k of
              None \<Rightarrow> kvs @ [(k, v)]
            | Some i \<Rightarrow> insert_index i k v kvs))"

definition obj_delete :: "js_object \<Rightarrow> string \<Rightarrow> js_object" where
  "obj_delete kvs k = AList.delete k kvs"

definition obj_keys :: "js_object \<Rightarrow> string list" where
  "obj_keys kvs = map fst kvs"

text \<open>Reading a property back after a write or a delete.\<close>

lemma map_of_insert_index:
  "k \<notin> fst ` set r \<Longrightarrow> map_of (insert_index i k v r) k' = (if k' = k then Some v else map_of r k')"
proof (induction r)
  case Nil
  then show ?case by simp
next
  case (Cons p r)
  then show ?case
    by (cases p) (auto split: option.splits)
qed

lemma map_of_obj_set: "map_of (obj_set r k v) k' = (if k' = k then Some v else map_of r k')"
proof (cases "k \<in> fst ` set r")
  case True
  then show ?thesis by (simp add: obj_set_def update_conv')
next
  case False
  then have "map_of r k = None" by (simp add: map_of_eq_None_iff)
  with False show ?thesis
    by (cases "index_of_key k") (auto simp: obj_set_def map_of_insert_index map_add_def split: option.splits)
qed

lemma obj_get_delete: "obj_get (obj_delete kvs k') k = Some v \<Longrightarrow> obj_get kvs k = Some v"
  by (cases "k = k'") (simp_all add: obj_get_def obj_delete_def delete_conv')

lemma obj_get_set: "obj_get (obj_set r k v) k' = (if k' = k then Some v else obj_get r k')"
  unfolding obj_get_def by (rule map_of_obj_set)

subsection \<open>Numbers as decimal strings\<close>

text \<open>The decimal digits of a natural number, as template strings and \<open>Object.keys\<close> of an
  array print it.\<close>

definition digit_char :: "nat \<Rightarrow> char" where
  "digit_char n = char_of (of_char CHR ''0'' + n)"

function show_nat :: "nat \<Rightarrow> string" where
  "show_nat n = (if n < 10 then [digit_char n] else show_nat (n div 10) @ [digit_char (n mod 10)])"
  by pat_completeness auto
termination
  by (relation "measure (\<lambda>n. n)") auto

declare show_nat.simps [simp del]

subsection \<open>Double-precision arithmetic\<close>

text \<open>
  A JavaScript number is an IEEE 754 binary64 value, and arithmetic on numbers rounds.
  \<open>binary64 x\<close> is the double nearest to the real number \<open>x\<close>, a tie going to the double
  whose significand is even: it is the value of the decimal literal that denotes \<open>x\<close> and,
  applied to the exact result, the value of a sum or a product of two doubles. A double
  has 53 significant bits, so around \<open>x\<close> the doubles are the multiples of \<open>2^e\<close> with
  \<open>e = \<lfloor>log\<^sub>2 |x|\<rfloor> - 52\<close>, and the multiples of \<open>2^-1074\<close> in the subnormal range. The overflow
  to \<open>Infinity\<close>, from \<open>2^1024\<close> on, is not modelled.
\<close>

definition round_half_even :: "rat \<Rightarrow> int" where
  "round_half_even x =
     (let f = \<lfloor>x\<rfloor>; r = x - of_int f
      in if r < 1 / 2 then f else if 1 / 2 < r then f + 1 else if even f then f else f + 1)"

text \<open>\<open>\<lfloor>log\<^sub>2 x\<rfloor>\<close> for a positive \<open>x\<close>, from the number of bits of an integer.\<close>

definition ilog2 :: "rat \<Rightarrow> int" where
  "ilog2 x = (if 1 \<le> x then bitlen \<lfloor>x\<rfloor> - 1 else - bitlen (\<lceil>1 / x\<rceil> - 1))"

definition binary64 :: "rat \<Rightarrow> rat" where
  "binary64 x =
     (if x = 0 then 0
      else let e = max (ilog2 \<bar>x\<bar> - 52) (- 1074)
           in sgn x * of_int (round_half_even (\<bar>x\<bar> / 2 powi e)) * 2 powi e)"

subsection \<open>Logging\<close>

text \<open>\<open>logMessage(level, message)\<close> appends to a log, which the models that need it carry
  in their state.\<close>

datatype level = Debug | Info | Warn | Error

type_synonym log_entry = "level \<times> string"

subsection \<open>Keys and values of any value\<close>

text \<open>\<open>Object.keys(x)\<close> and \<open>Object.values(x)\<close> for a value that need not be an object: the
  indices and elements of an array or a string, nothing for the other primitives; and
  the property read \<open>x.k\<close> for a name \<open>k\<close> that only an object can have.\<close>

fun object_keys :: "json \<Rightarrow> string list" where
  "object_keys (JObj kvs) = obj_keys kvs"
| "object_keys (JArr xs) = map show_nat [0 ..< length xs]"
| "object_keys (JStr s) = map show_nat [0 ..< length s]"
| "object_keys v = []"

fun object_values :: "json \<Rightarrow> json list" where
  "object_values (JObj kvs) = map snd kvs"
| "object_values (JArr xs) = xs"
| "object_values (JStr s) = map (\<lambda>c. JStr [c]) s"
| "object_values v = []"

fun js_prop :: "json \<Rightarrow> string \<Rightarrow> json option" where
  "js_prop (JObj kvs) k = obj_get kvs k"
| "js_prop v k = None"

section \<open>Response cache (packages/core/llm/cache.ts)\<close>

record 'v CacheEntry =
  timestamp :: int
  "value" :: 'v

text \<open>
  The private \<open>Map\<close> is the list of its entries in insertion order: \<open>Map.set\<close> replaces
  the value of a present key in place and appends an absent one (\<open>AList.update\<close>),
  \<open>Map.delete\<close> removes the entry (\<open>AList.delete\<close>). Times are integer milliseconds.
  The cache writes log lines on a hit, an expiry, an eviction and a write; they have no
  effect on its state and are left out.
\<close>

record 'v LLMResponseCache =
  cache :: "(string \<times> 'v CacheEntry) list"
  maxAge :: int
  maxSize :: int
  enabled :: bool

record cache_options =
  opt_maxAge :: "int option"
  opt_maxSize :: "int option"
  opt_enabled :: "bool option"

text \<open>\<open>x || d\<close> on an optional number: \<open>undefined\<close> and \<open>0\<close> are falsy.\<close>

definition or_default :: "int option \<Rightarrow> int \<Rightarrow> int" where
  "or_default x d = (case x of None \<Rightarrow> d | Some n \<Rightarrow> if n = 0 then d else n)"

text \<open>The constructor; the options object itself is optional.\<close>

definition new_cache :: "cache_options option \<Rightarrow> 'v LLMResponseCache" where
  "new_cache options =
     \<lparr> cache = [],
       maxAge = or_default (Option.bind options opt_maxAge) (60 * 60 * 1000),
       maxSize = or_default (Option.bind options opt_maxSize) 1000,
       enabled = (Option.bind options opt_enabled \<noteq> Some False) \<rparr>"

subsection \<open>Key derivation\<close>

text \<open>A message is an object; only its \<open>role\<close> and \<open>content\<close> properties are read.\<close>

type_synonym message = js_object

text \<open>
  The composite \<open>keyObj\<close> that is serialised and hashed. A message is reduced to the pair
  of its \<open>role\<close> and \<open>content\<close>; \<open>k_schema\<close> is \<open>None\<close> when the property is \<open>undefined\<close>.
\<close>

record keyObj =
  k_messages :: "(json option \<times> json option) list"
  k_temperature :: rat
  k_schema :: "json option"

text \<open>
  \<open>createHash('md5').update(JSON.stringify(keyObj)).digest('hex')\<close> is library code;
  it enters the model as a parameter of this type.
\<close>

type_synonym digest = "keyObj \<Rightarrow> string"

lemma obj_get_size: "obj_get kvs k = Some v \<Longrightarrow> size v < Suc (size_list (size_prod (\<lambda>_. 0) size) kvs)"
proof (induction kvs)
  case Nil
  then show ?case by (simp add: obj_get_def)
next
  case (Cons p kvs)
  then show ?case by (cases p) (auto simp: obj_get_def split: if_splits)
qed

text \<open>
  \<open>result[key] = v\<close> on an object that was created by \<open>{}\<close>. The name \<open>__proto__\<close> is not
  an ordinary property name there: it is the accessor that the object inherits from
  \<open>Object.prototype\<close>, and assigning to it changes the prototype of \<open>result\<close> (to \<open>v\<close> when
  \<open>v\<close> is an object or \<open>null\<close>, not at all otherwise) and creates no own property. Only own
  properties are serialised by \<open>JSON.stringify\<close>, so the prototype is not modelled. Every
  other name is written as an own property.
\<close>

definition assign_property :: "js_object \<Rightarrow> string \<Rightarrow> json \<Rightarrow> js_object" where
  "assign_property result key v = (if key = ''__proto__'' then result else obj_set result key v)"

text \<open>
  \<open>Object.keys(obj).sort().reduce(...)\<close>: the keys, sorted by code unit, are written one
  by one into a fresh object. Every key comes from the object itself, so the read
  \<open>obj[key]\<close> always finds its value. An input object can have \<open>__proto__\<close> as an own key (an
  object built by \<open>JSON.parse\<close> has it when the text does); its value is read and
  normalised, and the assignment then leaves no trace of it in the result.
\<close>

function normalizeObject :: "json \<Rightarrow> json" where
  "normalizeObject JNull = JNull"
| "normalizeObject (JBool b) = JBool b"
| "normalizeObject (JNum n) = JNum n"
| "normalizeObject (JStr s) = JStr s"
| "normalizeObject (JArr xs) = JArr (map normalizeObject xs)"
| "normalizeObject (JObj kvs) =
     JObj (foldl (\<lambda>result key.
                    case obj_get kvs key of
                      Some v \<Rightarrow> assign_property result key (normalizeObject v)
                    | None \<Rightarrow> result)
                 [] (sort (obj_keys kvs)))"
  by pat_completeness auto
termination
proof (relation "measure size")
  show "wf (measure size)" by simp
next
  fix xs :: "json list" and x
  assume "x \<in> set xs"
  then show "(x, JArr xs) \<in> measure size"
    by (induction xs) auto
next
  fix kvs :: js_object and key v
  assume "obj_get kvs key = Some v"
  then show "(v, JObj kvs) \<in> measure size"
    using obj_get_size [of kvs key v] by simp
qed

definition reduce_message :: "message \<Rightarrow> json option \<times> json option" where
  "reduce_message msg = (obj_get msg ''role'', obj_get msg ''content'')"

text \<open>\<open>generateKey\<close> builds the key object (\<open>make_keyObj\<close>) and returns its digest. A
  falsy schema is keyed like an absent one: \<open>schema ? normalizeObject(schema) : undefined\<close>.\<close>

definition make_keyObj :: "message list \<Rightarrow> rat \<Rightarrow> json option \<Rightarrow> keyObj" where
  "make_keyObj msgs temp sch =
     (let normalizedSchema =
            (case sch of
               None \<Rightarrow> None
             | Some s \<Rightarrow> if truthy s then Some (normalizeObject s) else None)
      in \<lparr> k_messages = map reduce_message msgs,
            k_temperature = temp,
            k_schema = normalizedSchema \<rparr>)"

definition generateKey :: "digest \<Rightarrow> message list \<Rightarrow> rat \<Rightarrow> json option \<Rightarrow> string" where
  "generateKey md5 msgs temp sch = md5 (make_keyObj msgs temp sch)"

subsection \<open>Reading and writing\<close>

text \<open>\<open>Date.now()\<close> is the argument \<open>now\<close>. A read returns the value found, if any, and
  the cache, from which an expired entry has been deleted.\<close>

definition cache_get ::
  "digest \<Rightarrow> 'v LLMResponseCache \<Rightarrow> int \<Rightarrow> message list \<Rightarrow> rat \<Rightarrow> json option
     \<Rightarrow> 'v option \<times> 'v LLMResponseCache" where
  "cache_get md5 c now msgs temp sch =
     (if \<not> enabled c then (None, c)
      else
        let key = generateKey md5 msgs temp sch in
        case map_of (cache c) key of
          None \<Rightarrow> (None, c)
        | Some entry \<Rightarrow>
            if now - timestamp entry > maxAge c
            then (None, c\<lparr>cache := AList.delete key (cache c)\<rparr>)
            else (Some (value entry), c))"

text \<open>The scan for the oldest entry. \<open>oldestTime\<close> starts at \<open>Infinity\<close>, here \<open>None\<close>.\<close>

definition older :: "int \<Rightarrow> int option \<Rightarrow> bool" where
  "older t oldestTime = (case oldestTime of None \<Rightarrow> True | Some t' \<Rightarrow> t < t')"

definition scan_step ::
  "(string \<times> 'v CacheEntry) option \<times> int option \<Rightarrow> string \<times> 'v CacheEntry
     \<Rightarrow> (string \<times> 'v CacheEntry) option \<times> int option" where
  "scan_step acc ke =
     (if older (timestamp (snd ke)) (snd acc) then (Some ke, Some (timestamp (snd ke)))
      else acc)"

definition find_oldest :: "(string \<times> 'v CacheEntry) list \<Rightarrow> (string \<times> 'v CacheEntry) option" where
  "find_oldest entries = fst (foldl scan_step (None, None) entries)"

definition enforce_limit :: "'v LLMResponseCache \<Rightarrow> (string \<times> 'v CacheEntry) list" where
  "enforce_limit c =
     (if int (length (cache c)) \<ge> maxSize c
      then (case find_oldest (cache c) of
              Some oldest \<Rightarrow> AList.delete (fst oldest) (cache c)
            | None \<Rightarrow> cache c)
      else cache c)"

definition cache_set ::
  "digest \<Rightarrow> 'v LLMResponseCache \<Rightarrow> int \<Rightarrow> message list \<Rightarrow> rat \<Rightarrow> 'v \<Rightarrow> json option
     \<Rightarrow> 'v LLMResponseCache" where
  "cache_set md5 c now msgs temp v sch =
     (if \<not> enabled c then c
      else
        let key = generateKey md5 msgs temp sch in
        c\<lparr>cache := AList.update key \<lparr>timestamp = now, value = v\<rparr> (enforce_limit c)\<rparr>)"



subsection \<open>Sequences of calls\<close>




text \<open>Concrete data for the evaluated instances: a stand-in digest that concatenates the
  string contents of the messages, and the messages of the unit tests.\<close>

definition demo_digest :: digest where
  "demo_digest ko = concat (map (\<lambda>rc. case snd rc of Some (JStr s) \<Rightarrow> s | _ \<Rightarrow> []) (k_messages ko))"

definition user_message :: "string \<Rightarrow> message" where
  "user_message text = [(''role'', JStr ''user''), (''content'', JStr text)]"




subsection \<open>Schemas that differ in key order only\<close>

text \<open>A JSON value is well formed when no object in it has a key twice, as is the case
  for every JavaScript object.\<close>

fun wf_json :: "json \<Rightarrow> bool" where
  "wf_json (JArr xs) = list_all wf_json xs"
| "wf_json (JObj kvs) = (distinct (map fst kvs) \<and> list_all (\<lambda>(k, v). wf_json v) kvs)"
| "wf_json v = True"

fun same_up_to_key_order :: "json \<Rightarrow> json \<Rightarrow> bool" where
  "same_up_to_key_order (JObj xs) (JObj ys) =
     (set (map fst xs) = set (map fst ys)
      \<and> list_all (\<lambda>(k, v). (case map_of ys k of
                               Some w \<Rightarrow> same_up_to_key_order v w
                             | None \<Rightarrow> False)) xs)"
| "same_up_to_key_order (JArr xs) (JArr ys) = list_all2 same_up_to_key_order xs ys"
| "same_up_to_key_order a b = (a = b)"

text \<open>One step of the \<open>reduce\<close> in \<open>normalizeObject\<close>.\<close>

definition write_key :: "js_object \<Rightarrow> (json \<Rightarrow> json) \<Rightarrow> js_object \<Rightarrow> string \<Rightarrow> js_object" where
  "write_key kvs f result key =
     (case obj_get kvs key of Some v \<Rightarrow> assign_property result key (f v) | None \<Rightarrow> result)"

text \<open>The two schemas of the unit test on key order.\<close>

definition schema_name_age :: json where
  "schema_name_age =
     JObj [(''properties'', JObj [(''name'', JObj [(''type'', JStr ''string'')]),
                                  (''age'', JObj [(''type'', JStr ''number'')])]),
           (''type'', JStr ''object'')]"

definition schema_age_name :: json where
  "schema_age_name =
     JObj [(''type'', JStr ''object''),
           (''properties'', JObj [(''age'', JObj [(''type'', JStr ''number'')]),
                                  (''name'', JObj [(''type'', JStr ''string'')])])]"

text \<open>The two schemas of the unit test on different schemas, and the same two with the
  property named \<open>__proto__\<close>, as \<open>JSON.parse\<close> builds them from
  \<open>{"type":"object","properties":{"__proto__":{"type":"string"}}}\<close> and its sibling.\<close>

definition schema_name :: json where
  "schema_name =
     JObj [(''type'', JStr ''object''),
           (''properties'', JObj [(''name'', JObj [(''type'', JStr ''string'')])])]"

definition schema_age :: json where
  "schema_age =
     JObj [(''type'', JStr ''object''),
           (''properties'', JObj [(''age'', JObj [(''type'', JStr ''number'')])])]"

definition schema_proto_string :: json where
  "schema_proto_string =
     JObj [(''type'', JStr ''object''),
           (''properties'', JObj [(''__proto__'', JObj [(''type'', JStr ''string'')])])]"

definition schema_proto_number :: json where
  "schema_proto_number =
     JObj [(''type'', JStr ''object''),
           (''properties'', JObj [(''__proto__'', JObj [(''type'', JStr ''number'')])])]"

text \<open>No object of the value, at any depth, has the key \<open>__proto__\<close>.\<close>

fun proto_free :: "json \<Rightarrow> bool" where
  "proto_free (JArr xs) = list_all proto_free xs"
| "proto_free (JObj kvs) = (''__proto__'' \<notin> set (map fst kvs) \<and> list_all (\<lambda>(k, v). proto_free v) kvs)"
| "proto_free v = True"


section \<open>Deduplicating job queue (class \<open>Queue\<close>)\<close>

text \<open>
  A task is a closure \<open>() => Promise<void>\<close>. Called, it either throws at once, before
  any promise exists, or returns a promise that settles later; the model keeps a name to
  tell tasks apart and what the call itself does. How a pending promise settles is
  decided by the environment, when it settles. The record \<open>Queue\<close> has the fields of the
  class (\<open>qtype\<close> is \<open>type\<close>, \<open>ident\<close> is \<open>id\<close>) and two more: \<open>awaiting\<close> is the job at whose
  \<open>await job.task()\<close> the worker loop is suspended, and \<open>started\<close> records every task
  that was called, in order.
\<close>

datatype task = Task (task_name: string) (throws_on_call: "string option")

record Process =
  ident :: string
  task :: task

datatype outcome = Returned | Threw string

record Queue =
  queue :: "Process list"
  isProcessing :: bool
  jobSet :: "string set"
  qtype :: string
  awaiting :: "Process option"
  logged :: "log_entry list"
  started :: "Process list"

definition new_queue :: "string \<Rightarrow> Queue" where
  "new_queue queueType =
     \<lparr> queue = [], isProcessing = False, jobSet = {}, qtype = queueType,
       awaiting = None, logged = [], started = [] \<rparr>"

definition logMessage :: "level \<Rightarrow> string \<Rightarrow> Queue \<Rightarrow> Queue" where
  "logMessage lv msg s = s\<lparr>logged := logged s @ [(lv, msg)]\<rparr>"

definition processing_notice :: "Queue \<Rightarrow> Process \<Rightarrow> string" where
  "processing_notice s job = ''Processing '' @ qtype s @ '' '' @ ident job"

definition error_notice :: "Queue \<Rightarrow> Process \<Rightarrow> string \<Rightarrow> string" where
  "error_notice s job e = ''Error processing '' @ qtype s @ '' '' @ ident job @ '': '' @ e"

definition duplicate_notice :: "string \<Rightarrow> string" where
  "duplicate_notice i = ''Job with ID '' @ i @ '' is already in the queue.''"

text \<open>The \<open>catch\<close> and \<open>finally\<close> blocks: an error is logged (the source passes the
  error to the logger as a further argument; here its message is appended to the line),
  and in either case the id is deleted from \<open>jobSet\<close>.\<close>

definition settled :: "outcome \<Rightarrow> Process \<Rightarrow> Queue \<Rightarrow> Queue" where
  "settled out job s =
     (let s1 = (case out of
                  Returned \<Rightarrow> s
                | Threw e \<Rightarrow> logMessage Error (error_notice s job e) s)
      in s1\<lparr>jobSet := jobSet s1 - {ident job}\<rparr>)"

text \<open>
  The \<open>while\<close> loop of \<open>processQueue\<close>, from the test of its condition up to the point
  where it suspends or ends. A task that throws when called is caught without
  suspension and the loop goes on; otherwise the loop suspends at the \<open>await\<close>.
\<close>

function worker_loop :: "Queue \<Rightarrow> Queue" where
  "worker_loop s =
     (case queue s of
        [] \<Rightarrow> s\<lparr>isProcessing := False\<rparr>
      | job # rest \<Rightarrow>
          let s1 = logMessage Info (processing_notice s job) (s\<lparr>queue := rest\<rparr>);
              s2 = s1\<lparr>started := started s1 @ [job]\<rparr>
          in (case throws_on_call (task job) of
                Some e \<Rightarrow> worker_loop (settled (Threw e) job s2)
              | None \<Rightarrow> s2\<lparr>awaiting := Some job\<rparr>))"
  by pat_completeness auto
termination
  by (relation "measure (\<lambda>s. length (queue s))")
     (auto simp: settled_def logMessage_def Let_def)

definition processQueue :: "Queue \<Rightarrow> Queue" where
  "processQueue s = (if isProcessing s then s else worker_loop (s\<lparr>isProcessing := True\<rparr>))"

definition enqueue :: "string \<Rightarrow> task \<Rightarrow> Queue \<Rightarrow> Queue" where
  "enqueue i t s =
     (if i \<notin> jobSet s
      then processQueue (s\<lparr>queue := queue s @ [\<lparr>ident = i, task = t\<rparr>],
                           jobSet := insert i (jobSet s)\<rparr>)
      else logMessage Info (duplicate_notice i) s)"

text \<open>The promise of the awaited task settles: the loop resumes after the \<open>await\<close>.\<close>

definition settle :: "outcome \<Rightarrow> Queue \<Rightarrow> Queue" where
  "settle out s =
     (case awaiting s of
        None \<Rightarrow> s
      | Some job \<Rightarrow> worker_loop (settled out job (s\<lparr>awaiting := None\<rparr>)))"

text \<open>What the environment can do to a queue: call \<open>enqueue\<close>, or let the awaited task
  settle. A task that calls \<open>enqueue\<close> itself is an \<open>Enqueue\<close> event while it runs.\<close>

datatype event = Enqueue string task | Settle outcome

fun step :: "Queue \<Rightarrow> event \<Rightarrow> Queue" where
  "step s (Enqueue i t) = enqueue i t s"
| "step s (Settle out) = settle out s"

definition run :: "Queue \<Rightarrow> event list \<Rightarrow> Queue" where
  "run s es = foldl step s es"


text \<open>The jobs that were taken in and have not settled: the awaited one and the queued
  ones.\<close>

definition pending :: "Queue \<Rightarrow> Process list" where
  "pending s = (case awaiting s of None \<Rightarrow> [] | Some job \<Rightarrow> [job]) @ queue s"

definition queue_inv :: "Queue \<Rightarrow> bool" where
  "queue_inv s =
     (jobSet s = ident ` set (pending s)
      \<and> distinct (map ident (pending s))
      \<and> isProcessing s = (awaiting s \<noteq> None)
      \<and> (awaiting s = None \<longrightarrow> queue s = []))"

definition loop_inv :: "Queue \<Rightarrow> bool" where
  "loop_inv s =
     (jobSet s = ident ` set (queue s)
      \<and> distinct (map ident (queue s))
      \<and> awaiting s = None
      \<and> isProcessing s)"

definition begin_job :: "Process \<Rightarrow> Process list \<Rightarrow> Queue \<Rightarrow> Queue" where
  "begin_job job rest s =
     (logMessage Info (processing_notice s job) (s\<lparr>queue := rest\<rparr>))\<lparr>started := started s @ [job]\<rparr>"

text \<open>Concrete jobs and event sequences for the evaluated instances.\<close>

definition job_a :: Process where "job_a = \<lparr>ident = ''a'', task = Task ''first'' None\<rparr>"
definition job_b :: Process where "job_b = \<lparr>ident = ''b'', task = Task ''second'' None\<rparr>"
definition job_c :: Process where "job_c = \<lparr>ident = ''c'', task = Task ''third'' (Some ''boom'')\<rparr>"


definition three_jobs :: "event list" where
  "three_jobs = [Enqueue ''a'' (Task ''first'' None), Enqueue ''b'' (Task ''second'' None),
                 Enqueue ''c'' (Task ''third'' (Some ''boom''))]"

section \<open>Instruction suggestions (packages/core/utils/instructions.ts)\<close>

subsection \<open>The sanitizer\<close>

text \<open>
  Strings are lists of 8-bit characters, read as the code points below 256. Among them
  the white space of \<^verbatim>\<open>\s\<close> and \<open>trim\<close> is tab, line feed, vertical tab, form feed,
  carriage return, space and no-break space, and the line terminators, which a dot in a
  regular expression does not match, are line feed and carriage return.
\<close>

definition is_js_space :: "char \<Rightarrow> bool" where
  "is_js_space c = (c \<in> set [CHR 0x09, CHR 0x0A, CHR 0x0B, CHR 0x0C, CHR 0x0D, CHR 0x20, CHR 0xA0])"

definition is_line_terminator :: "char \<Rightarrow> bool" where
  "is_line_terminator c = (c = CHR 0x0A \<or> c = CHR 0x0D)"

definition trim :: "string \<Rightarrow> string" where
  "trim s = rev (dropWhile is_js_space (rev (dropWhile is_js_space s)))"

text \<open>\<^verbatim>\<open>s.split(/\r?\n/)\<close>, with the current piece as accumulator.\<close>

fun split_lines :: "string \<Rightarrow> string \<Rightarrow> string list" where
  "split_lines cur [] = [cur]"
| "split_lines cur (c # cs) =
     (if c = CHR 0x0A then cur # split_lines [] cs
      else (case cs of
              d # ds \<Rightarrow> if c = CHR 0x0D \<and> d = CHR 0x0A then cur # split_lines [] ds
                         else split_lines (cur @ [c]) cs
            | [] \<Rightarrow> split_lines (cur @ [c]) cs))"

text \<open>The three \<open>replace\<close> calls, with the patterns \<^verbatim>\<open>/^[-*]\s*/\<close>,
  \<^verbatim>\<open>/^[0-9]+\.\s*/\<close> and \<^verbatim>\<open>/^"|"$/g\<close>.\<close>

definition strip_bullet :: "string \<Rightarrow> string" where
  "strip_bullet s =
     (case s of
        c # cs \<Rightarrow> if c = CHR ''-'' \<or> c = CHR ''*'' then dropWhile is_js_space cs else s
      | [] \<Rightarrow> s)"

definition strip_number :: "string \<Rightarrow> string" where
  "strip_number s =
     (let rest = dropWhile is_digit s
      in if takeWhile is_digit s \<noteq> [] \<and> rest \<noteq> [] \<and> hd rest = CHR ''.''
         then dropWhile is_js_space (tl rest) else s)"

definition strip_quotes :: "string \<Rightarrow> string" where
  "strip_quotes s =
     (let s1 = (case s of c # cs \<Rightarrow> if c = CHR 0x22 then cs else s | [] \<Rightarrow> s)
      in if s1 \<noteq> [] \<and> last s1 = CHR 0x22 then butlast s1 else s1)"

text \<open>The test of the filter, with the pattern
  \<^verbatim>\<open>/^(\*\*.*\*\*|Individual Suggestions:|Integration Suggestions:)/i\<close>.\<close>

definition eq_ci :: "char \<Rightarrow> char \<Rightarrow> bool" where
  "eq_ci a b =
     (a = b
      \<or> (CHR ''A'' \<le> a \<and> a \<le> CHR ''Z'' \<and> (of_char b :: nat) = of_char a + 32)
      \<or> (CHR ''A'' \<le> b \<and> b \<le> CHR ''Z'' \<and> (of_char a :: nat) = of_char b + 32))"

definition prefix_ci :: "string \<Rightarrow> string \<Rightarrow> bool" where
  "prefix_ci p s = (length p \<le> length s \<and> list_all2 eq_ci p (take (length p) s))"

fun bold_closes :: "string \<Rightarrow> bool" where
  "bold_closes [] = False"
| "bold_closes (c # cs) =
     ((c = CHR ''*'' \<and> cs \<noteq> [] \<and> hd cs = CHR ''*'')
      \<or> (\<not> is_line_terminator c \<and> bold_closes cs))"

definition is_header :: "string \<Rightarrow> bool" where
  "is_header s =
     ((case s of
         a # b # rest \<Rightarrow> a = CHR ''*'' \<and> b = CHR ''*'' \<and> bold_closes rest
       | _ \<Rightarrow> False)
      \<or> prefix_ci ''Individual Suggestions:'' s
      \<or> prefix_ci ''Integration Suggestions:'' s)"

text \<open>\<open>JSON.parse\<close> (\<open>None\<close> when it throws) and the printing of numbers by \<open>String\<close> are
  built-ins of the language; they are parameters of the model.\<close>

record js_builtins =
  JSON_parse :: "string \<Rightarrow> json option"
  Number_toString :: "rat \<Rightarrow> string"

fun String_of :: "js_builtins \<Rightarrow> json \<Rightarrow> string" where
  "String_of js (JBool b) = (if b then ''true'' else ''false'')"
| "String_of js (JNum n) = Number_toString js n"
| "String_of js (JStr s) = s"
| "String_of js JNull = ''null''"
| "String_of js v = ''[object Object]''"

definition clean_line :: "string \<Rightarrow> string" where
  "clean_line s = trim (strip_quotes (strip_number (strip_bullet s)))"

definition sanitizeInstructionSuggestions :: "js_builtins \<Rightarrow> json \<Rightarrow> string list" where
  "sanitizeInstructionSuggestions js raw =
     (let arr = (case raw of
                   JStr s \<Rightarrow> (case JSON_parse js s of
                                Some (JArr xs) \<Rightarrow> xs
                              | Some parsed \<Rightarrow> [parsed]
                              | None \<Rightarrow> [JStr s])
                 | JArr xs \<Rightarrow> xs
                 | JNull \<Rightarrow> []
                 | other \<Rightarrow> [JStr (String_of js other)]);
          flat = concat (map (\<lambda>item. case item of
                                        JStr s \<Rightarrow> map trim (split_lines [] s)
                                      | _ \<Rightarrow> []) arr)
      in filter (\<lambda>s. length s > 0 \<and> \<not> is_header s) (map clean_line flat))"

subsection \<open>The retry loop\<close>

text \<open>The two messages every run starts from. \<open>systems_json\<close> is
  \<open>JSON.stringify(systems, null, 2)\<close>.\<close>

definition system_prompt :: string where
  \<open>system_prompt =
     ''You are an expert at suggesting specific, implementable workflows combining different APIs and systems. Given a set of systems, suggest natural language instructions that can be directly built into workflows, with a focus on data retrieval and practical integrations.\<newline>'' @
     ''\<newline>'' @
     ''For each system, provide 1-2 specific retrieval-focused examples. Then, suggest 3-4 detailed integration workflows that combine multiple systems. Each suggestion should be specific enough to implement directly, including key data points or criteria to use.\<newline>'' @
     ''\<newline>'' @
     ''**Important:** Return ONLY a JSON array of strings. Do NOT include any section headers, markdown, bullet points, numbers, or explanations. Each string in the array should be a single, specific, implementable instruction.\<newline>'' @
     ''\<newline>'' @
     ''**Example output:**\<newline>'' @
     ''[\<newline>'' @
     ''  "Retrieve all Stripe customers who have spent over $1000 in the last 30 days.",\<newline>'' @
     ''  "Find MongoDB documents where subscription_status is 'past_due'.",\<newline>'' @
     ''  "When a customer's total spend in Stripe exceeds $5000, fetch their order history from MongoDB and update their loyalty tier.",\<newline>'' @
     ''  "Query MongoDB for all users with premium_status=true and verify their Stripe subscription is still active."\<newline>'' @
     '']\<newline>'' @
     ''\<newline>'' @
     ''Remember these important rules: The output MUST be a JSON array of strings, with no extra formatting or explanation. Do not think long and keep each instruction concise and simple, with maximum 4 options total (not per system).\<newline>'' @
     ''''\<close>

definition initial_messages :: "string \<Rightarrow> message list" where
  "initial_messages systems_json =
     [[(''role'', JStr ''system''), (''content'', JStr system_prompt)],
      [(''role'', JStr ''user''), (''content'', JStr (''Systems: '' @ systems_json))]]"

definition MAX_RETRIES :: nat where
  "MAX_RETRIES = 3"

text \<open>
  \<open>LanguageModel.generateObject(messages, schema, temperature)\<close> is a parameter: it throws
  an error, of which the model keeps the message, or returns the \<open>response\<close>. A run
  records its requests (the messages sent and the temperature) and its log. A
  temperature is a double, given by its value.
\<close>

type_synonym language_model = "message list \<Rightarrow> json \<Rightarrow> rat \<Rightarrow> string + json"

record instruction_run =
  requests :: "(message list \<times> rat) list"
  emitted :: "log_entry list"

definition emit :: "level \<Rightarrow> string \<Rightarrow> instruction_run \<Rightarrow> instruction_run" where
  "emit lv msg st = st\<lparr>emitted := emitted st @ [(lv, msg)]\<rparr>"

definition instruction_schema :: json where
  "instruction_schema = JObj [(''type'', JStr ''array''), (''items'', JObj [(''type'', JStr ''string'')])]"

text \<open>
  \<open>Math.min(0.3 * retry, 1.0)\<close>, in double arithmetic: the literal \<open>0.3\<close> is the double
  nearest to \<open>3/10\<close>, the product is rounded to a double, and the minimum of two doubles
  is one of them. \<open>retry\<close> is the loop counter, a small integer and so a double itself. The
  product \<open>0.3 * 3\<close> falls half way between two doubles and is rounded to the lower one,
  which is printed \<open>0.8999999999999999\<close>; it is not the double of the literal \<open>0.9\<close>.
\<close>

definition attempt_temperature :: "nat \<Rightarrow> rat" where
  "attempt_temperature retry = min (binary64 (binary64 (3 / 10) * of_nat retry)) 1"

fun nonempty_array :: "json \<Rightarrow> bool" where
  "nonempty_array (JArr xs) = (xs \<noteq> [])"
| "nonempty_array v = False"

text \<open>
  One attempt. A reply that is not a non-empty array makes it throw. The sanitation runs
  inside a \<open>try\<close> block: the error it throws on an empty result is caught by the \<open>catch\<close> of
  that same block, which logs it and returns the empty array.
\<close>

definition sanitization_notice :: string where
  "sanitization_notice =
     ''Sanitization failed: '' @ ''Sanitization failed or returned no valid instructions''"

definition attemptInstructionGeneration ::
  "js_builtins \<Rightarrow> language_model \<Rightarrow> message list \<Rightarrow> nat \<Rightarrow> instruction_run
     \<Rightarrow> (string + string list) \<times> instruction_run" where
  "attemptInstructionGeneration js llm msgs retry st =
     (let temperature = attempt_temperature retry;
          st1 = st\<lparr>requests := requests st @ [(msgs, temperature)]\<rparr>
      in case llm msgs instruction_schema temperature of
           Inl e \<Rightarrow> (Inl e, st1)
         | Inr generatedInstructions \<Rightarrow>
             if \<not> nonempty_array generatedInstructions
             then (Inl ''No valid instructions generated'', st1)
             else
               let sanitized = sanitizeInstructionSuggestions js generatedInstructions
               in if sanitized = []
                  then (Inr [], emit Error sanitization_notice st1)
                  else (Inr sanitized, st1))"

text \<open>\<open>generateInstructions\<close>: the \<open>while\<close> loop with its \<open>try\<close> and \<open>catch\<close>.\<close>

definition feedback_message :: "string \<Rightarrow> message" where
  "feedback_message e =
     [(''role'', JStr ''user''),
      (''content'', JStr (''The previous attempt failed with error: '' @ e @ ''. Please try again.''))]"

definition generating_notice :: "nat \<Rightarrow> string" where
  "generating_notice retryCount =
     ''Generating instructions''
       @ (if retryCount \<noteq> 0 then '': (retry '' @ show_nat retryCount @ '')'' else [])"

definition exhausted_notice :: "string \<Rightarrow> string" where
  "exhausted_notice e =
     ''Instruction generation failed after '' @ show_nat MAX_RETRIES
       @ '' retries. Last error: '' @ e"

definition retrying_notice :: string where
  "retrying_notice = ''Instruction generation failed. Retrying...''"

function retry_loop ::
  "js_builtins \<Rightarrow> language_model \<Rightarrow> message list \<Rightarrow> nat \<Rightarrow> instruction_run
     \<Rightarrow> (string + string list) \<times> instruction_run" where
  "retry_loop js llm msgs retryCount st =
     (if retryCount \<le> MAX_RETRIES
      then
        (case attemptInstructionGeneration js llm msgs retryCount
                (emit Info (generating_notice retryCount) st) of
           (Inr instructions, st2) \<Rightarrow> (Inr instructions, st2)
         | (Inl e, st2) \<Rightarrow>
             if Suc retryCount > MAX_RETRIES
             then (Inl e, emit Error (exhausted_notice e) st2)
             else retry_loop js llm (msgs @ [feedback_message e]) (Suc retryCount)
                    (emit Warn retrying_notice st2))
      else (Inl ''Unexpected error in instruction generation'', st))"
  by pat_completeness auto
termination
proof (relation "measure (\<lambda>(js, llm, msgs, retryCount, st). Suc MAX_RETRIES - retryCount)")
  show "wf (measure (\<lambda>(js, llm, msgs, retryCount, st). Suc MAX_RETRIES - retryCount))"
    by simp
next
  fix js :: js_builtins and llm :: language_model and msgs :: "message list"
    and retryCount :: nat and st :: instruction_run and e :: string and st2 :: instruction_run
  assume "retryCount \<le> MAX_RETRIES" and "\<not> MAX_RETRIES < Suc retryCount"
  then show "((js, llm, msgs @ [feedback_message e], Suc retryCount, emit Warn retrying_notice st2),
              js, llm, msgs, retryCount, st)
               \<in> measure (\<lambda>(js, llm, msgs, retryCount, st). Suc MAX_RETRIES - retryCount)"
    by simp
qed

definition generateInstructions ::
  "js_builtins \<Rightarrow> language_model \<Rightarrow> string \<Rightarrow> (string + string list) \<times> instruction_run" where
  "generateInstructions js llm systems_json =
     retry_loop js llm (initial_messages systems_json) 0 \<lparr>requests = [], emitted = []\<rparr>"

text \<open>The result of one attempt, apart from the state.\<close>

definition attempt_result :: "js_builtins \<Rightarrow> language_model \<Rightarrow> message list \<Rightarrow> nat \<Rightarrow> string + string list" where
  "attempt_result js llm msgs retry =
     fst (attemptInstructionGeneration js llm msgs retry \<lparr>requests = [], emitted = []\<rparr>)"

text \<open>Models for the evaluated instances: two whose every reply sanitizes to nothing,
  one that throws at temperature 0 and then replies with lines that sanitize to nothing,
  one that always throws (with another message once the temperature exceeds 0.75), and
  one that always replies with the empty array.\<close>

definition no_builtins :: js_builtins where
  "no_builtins = \<lparr>JSON_parse = (\<lambda>s. None), Number_toString = (\<lambda>n. [])\<rparr>"

definition headers_only_model :: language_model where
  "headers_only_model msgs sch temp =
     Inr (JArr [JStr ''Individual Suggestions:'', JStr ''Integration Suggestions:''])"

definition blank_lines_model :: language_model where
  "blank_lines_model msgs sch temp = Inr (JArr [JStr ''   '', JStr ''- ''])"

definition retry_then_blank_model :: language_model where
  "retry_then_blank_model msgs sch temp =
     (if temp = 0 then Inl ''first failure'' else Inr (JArr [JStr ''   '', JStr ''- '']))"

definition failing_model :: language_model where
  "failing_model msgs sch temp = (if 3 / 4 < temp then Inl ''fourth failure'' else Inl ''earlier failure'')"

definition empty_reply_model :: language_model where
  "empty_reply_model msgs sch temp = Inr (JArr [])"

section \<open>Schema adapters\<close>

subsection \<open>Gemini: \<open>cleanSchemaForGemini\<close> (packages/core/llm/gemini-model.ts)\<close>

text \<open>
  The function first replaces its argument by \<open>JSON.parse(JSON.stringify(schema))\<close>, a deep
  copy, which on JSON data is the same value; on \<open>null\<close> the first property read throws
  a \<open>TypeError\<close>. It then deletes three keys from the copy, writes \<open>required\<close> when
  \<open>properties\<close> is an object, and calls itself on every property value and on \<open>items\<close>
  when their \<open>typeof\<close> is \<open>'object'\<close>. These calls work on copies of their own and their
  results are dropped: all that a nested call can contribute is an exception.
\<close>

definition strip_meta :: "js_object \<Rightarrow> js_object" where
  "strip_meta kvs = obj_delete (obj_delete (obj_delete kvs ''$schema'') ''additionalProperties'') ''optional''"

fun first_error :: "(string + 'a) list \<Rightarrow> string option" where
  "first_error [] = None"
| "first_error (Inl e # rs) = Some e"
| "first_error (Inr v # rs) = first_error rs"

definition null_property_error :: "string \<Rightarrow> string" where
  "null_property_error k = ''Cannot read properties of null (reading '' @ [CHR 0x27] @ k @ [CHR 0x27] @ '')''"

lemma obj_get_strip_meta: "obj_get (strip_meta kvs) k = Some v \<Longrightarrow> obj_get kvs k = Some v"
  unfolding strip_meta_def by (blast dest: obj_get_delete)

lemma object_values_size: "v \<in> set (object_values p) \<Longrightarrow> typeof_object v \<Longrightarrow> size v < size p"
proof (cases p)
  case (JArr xs)
  assume "v \<in> set (object_values p)"
  with JArr have "v \<in> set xs" by simp
  then have "size v < Suc (size_list size xs)" by (induction xs) auto
  with JArr show ?thesis by simp
next
  case (JObj kvs)
  assume "v \<in> set (object_values p)"
  with JObj obtain k where "(k, v) \<in> set kvs" by auto
  then have "size v < Suc (size_list (size_prod (\<lambda>_. 0) size) kvs)"
    by (induction kvs) auto
  with JObj show ?thesis by simp
qed auto

text \<open>The steps of \<open>cleanSchemaForGemini\<close> on an object: the \<open>properties\<close> that pass the
  test, the write of \<open>required\<close>, and the arguments of the nested calls.\<close>

definition object_props :: "js_object \<Rightarrow> json option" where
  "object_props s =
     (case obj_get s ''properties'' of
        Some p \<Rightarrow> if truthy p \<and> typeof_object p then Some p else None
      | None \<Rightarrow> None)"

definition require_all :: "js_object \<Rightarrow> js_object" where
  "require_all s =
     (case object_props s of
        Some p \<Rightarrow> obj_set s ''required'' (JArr (map JStr (object_keys p)))
      | None \<Rightarrow> s)"

definition nested_properties :: "js_object \<Rightarrow> json list" where
  "nested_properties s =
     (case object_props s of
        Some p \<Rightarrow> filter typeof_object (object_values p)
      | None \<Rightarrow> [])"

definition nested_items :: "js_object \<Rightarrow> json list" where
  "nested_items s =
     (case obj_get s ''items'' of
        Some it \<Rightarrow> if truthy it \<and> typeof_object it then [it] else []
      | None \<Rightarrow> [])"

lemma object_props_Some: "object_props s = Some p \<Longrightarrow> obj_get s ''properties'' = Some p"
  by (cases "obj_get s ''properties''") (simp_all add: object_props_def split: if_splits)

lemma nested_properties_size:
  assumes "x \<in> set (nested_properties (strip_meta kvs))"
  shows "size x < size (JObj kvs)"
proof -
  from assms obtain p where p: "object_props (strip_meta kvs) = Some p"
    and xv: "x \<in> set (object_values p)" "typeof_object x"
    by (cases "object_props (strip_meta kvs)") (simp_all add: nested_properties_def)
  from object_props_Some [OF p] have "obj_get kvs ''properties'' = Some p"
    by (rule obj_get_strip_meta)
  from obj_get_size [OF this] object_values_size [OF xv] show ?thesis by simp
qed

lemma obj_get_require_all: "obj_get (require_all s) ''items'' = obj_get s ''items''"
  by (cases "object_props s") (simp_all add: require_all_def obj_get_set)

lemma nested_items_size:
  assumes "x \<in> set (nested_items (require_all (strip_meta kvs)))"
  shows "size x < size (JObj kvs)"
proof -
  from assms have "obj_get (require_all (strip_meta kvs)) ''items'' = Some x"
    by (cases "obj_get (require_all (strip_meta kvs)) ''items''")
       (simp_all add: nested_items_def split: if_splits)
  then have "obj_get (strip_meta kvs) ''items'' = Some x"
    by (simp only: obj_get_require_all)
  then have "obj_get kvs ''items'' = Some x"
    by (rule obj_get_strip_meta)
  from obj_get_size [OF this] show ?thesis by simp
qed

function cleanSchemaForGemini :: "json \<Rightarrow> string + json" where
  "cleanSchemaForGemini schema =
     (case schema of
        JNull \<Rightarrow> Inl (null_property_error ''$schema'')
      | JObj kvs \<Rightarrow>
          let s = require_all (strip_meta kvs);
              calls = nested_properties (strip_meta kvs) @ nested_items s
          in (case first_error (map cleanSchemaForGemini calls) of
                Some e \<Rightarrow> Inl e
              | None \<Rightarrow> Inr (JObj s))
      | other \<Rightarrow> Inr other)"
  by pat_completeness auto
termination
proof (relation "measure size", goal_cases)
  case 1
  show ?case by simp
next
  case (2 schema kvs s calls x)
  from 2(3,4) 2(2) have "x \<in> set (nested_properties (strip_meta kvs))
                       \<or> x \<in> set (nested_items (require_all (strip_meta kvs)))"
    by simp
  then have "size x < size (JObj kvs)"
    using nested_properties_size nested_items_size by blast
  with 2(1) show ?case by simp
qed

declare cleanSchemaForGemini.simps [simp del]

text \<open>\<open>generateObject\<close> of the Gemini adapter cleans a truthy schema and sends no schema
  otherwise.\<close>

definition gemini_responseSchema :: "json option \<Rightarrow> string + json option" where
  "gemini_responseSchema schema =
     (case schema of
        None \<Rightarrow> Inr None
      | Some s \<Rightarrow> if truthy s
                  then (case cleanSchemaForGemini s of Inl e \<Rightarrow> Inl e | Inr c \<Rightarrow> Inr (Some c))
                  else Inr None)"

text \<open>A schema with a nested object schema, for the evaluated instance.\<close>

definition address_schema :: json where
  "address_schema =
     JObj [(''type'', JStr ''object''),
           (''additionalProperties'', JBool False),
           (''optional'', JBool True),
           (''properties'', JObj [(''city'', JObj [(''type'', JStr ''string'')])])]"

definition nested_address_schema :: json where
  "nested_address_schema =
     JObj [(''type'', JStr ''object''),
           (''additionalProperties'', JBool False),
           (''properties'', JObj [(''address'', address_schema)])]"

subsection \<open>OpenAI: \<open>enforceStrictSchema\<close> and \<open>generateObject\<close> (packages/core/llm/openai-model.ts)\<close>

text \<open>
  \<open>enforceStrictSchema\<close> updates the schema in place. On a tree of JSON data that is the
  function below: a nested call with \<open>isRoot = false\<close> never wraps, so it returns the
  object it was given, updated, and \<open>forEach\<close> over the property values is a map over
  them. \<open>schema.items\<close> is read here before the properties are processed; processing
  them does not touch it.
\<close>

fun nested_values :: "json \<Rightarrow> json list" where
  "nested_values (JObj kvs) = map snd kvs"
| "nested_values (JArr xs) = xs"
| "nested_values v = []"

fun map_values :: "(json \<Rightarrow> json) \<Rightarrow> json \<Rightarrow> json" where
  "map_values f (JObj kvs) = JObj (map (\<lambda>(k, v). (k, f v)) kvs)"
| "map_values f (JArr xs) = JArr (map f xs)"
| "map_values f v = v"

lemma map_values_cong [fundef_cong]:
  assumes "p = q" and "\<And>v. v \<in> set (nested_values q) \<Longrightarrow> f v = g v"
  shows "map_values f p = map_values g q"
proof (cases q)
  case (JArr xs)
  with assms show ?thesis by simp
next
  case (JObj kvs)
  with assms(2) have "f (snd kv) = g (snd kv)" if "kv \<in> set kvs" for kv
    using that by simp
  then have "map (\<lambda>(k, v). (k, f v)) kvs = map (\<lambda>(k, v). (k, g v)) kvs"
    by (auto simp: case_prod_beta)
  with JObj assms(1) show ?thesis by simp
qed (use assms in simp_all)

definition wrap_root :: "json \<Rightarrow> bool \<Rightarrow> json" where
  "wrap_root schema isRoot =
     (if isRoot \<and> js_prop schema ''type'' \<noteq> Some (JStr ''object'')
      then JObj [(''type'', JStr ''object''), (''properties'', JObj [(''___results'', schema)])]
      else schema)"

definition strict_type :: "js_object \<Rightarrow> bool" where
  "strict_type s = (obj_get s ''type'' = Some (JStr ''object'') \<or> obj_get s ''type'' = Some (JStr ''array''))"

definition mark_strict :: "js_object \<Rightarrow> js_object" where
  "mark_strict s = obj_set (obj_set s ''additionalProperties'' (JBool False)) ''strict'' (JBool True)"

definition truthy_prop :: "js_object \<Rightarrow> string \<Rightarrow> json option" where
  "truthy_prop s k = (case obj_get s k of Some p \<Rightarrow> if truthy p then Some p else None | None \<Rightarrow> None)"

definition require_keys :: "js_object \<Rightarrow> json \<Rightarrow> js_object" where
  "require_keys s p =
     obj_delete (obj_set s ''required'' (JArr (map JStr (object_keys p)))) ''patternProperties''"

definition drop_bounds :: "js_object \<Rightarrow> js_object" where
  "drop_bounds s = obj_delete (obj_delete s ''minItems'') ''maxItems''"

lemma nested_values_size: "v \<in> set (nested_values p) \<Longrightarrow> size v < size p"
proof (cases p)
  case (JArr xs)
  assume "v \<in> set (nested_values p)"
  with JArr have "v \<in> set xs" by simp
  then have "size v < Suc (size_list size xs)" by (induction xs) auto
  with JArr show ?thesis by simp
next
  case (JObj kvs)
  assume "v \<in> set (nested_values p)"
  with JObj obtain k where "(k, v) \<in> set kvs" by auto
  then have "size v < Suc (size_list (size_prod (\<lambda>_. 0) size) kvs)"
    by (induction kvs) auto
  with JObj show ?thesis by simp
qed auto

lemma truthy_prop_mark_strict:
  assumes "truthy_prop (mark_strict s) k = Some p" and "k \<noteq> ''additionalProperties''" and "k \<noteq> ''strict''"
  shows "obj_get s k = Some p"
proof -
  from assms(1) have "obj_get (mark_strict s) k = Some p"
    by (cases "obj_get (mark_strict s) k") (simp_all add: truthy_prop_def split: if_splits)
  with assms(2,3) show ?thesis by (simp add: mark_strict_def obj_get_set)
qed

lemma strict_calls_smaller:
  assumes w: "wrap_root schema isRoot = JObj kvs"
    and g: "truthy_prop (mark_strict kvs) k = Some p"
    and k: "k = ''properties'' \<or> k = ''items''"
  shows "k = ''properties'' \<longrightarrow> (\<forall>v \<in> set (nested_values p). 2 * size v < 2 * size schema + (if isRoot then 1 else 0))"
    and "k = ''items'' \<longrightarrow> 2 * size p < 2 * size schema + (if isRoot then 1 else 0)"
proof -
  from g k have get: "obj_get kvs k = Some p"
    by (auto dest: truthy_prop_mark_strict)
  show "k = ''properties'' \<longrightarrow> (\<forall>v \<in> set (nested_values p). 2 * size v < 2 * size schema + (if isRoot then 1 else 0))"
  proof (intro impI ballI)
    fix v assume kp: "k = ''properties''" and v: "v \<in> set (nested_values p)"
    show "2 * size v < 2 * size schema + (if isRoot then 1 else 0)"
    proof (cases "isRoot \<and> js_prop schema ''type'' \<noteq> Some (JStr ''object'')")
      case True
      with w have "kvs = [(''type'', JStr ''object''), (''properties'', JObj [(''___results'', schema)])]"
        by (simp add: wrap_root_def)
      with get kp have "p = JObj [(''___results'', schema)]" by (simp add: obj_get_def)
      with v have "v = schema" by simp
      with True show ?thesis by simp
    next
      case False
      with w have "schema = JObj kvs" by (simp add: wrap_root_def)
      with obj_get_size [OF get] nested_values_size [OF v] show ?thesis by simp
    qed
  qed
  show "k = ''items'' \<longrightarrow> 2 * size p < 2 * size schema + (if isRoot then 1 else 0)"
  proof
    assume ki: "k = ''items''"
    show "2 * size p < 2 * size schema + (if isRoot then 1 else 0)"
    proof (cases "isRoot \<and> js_prop schema ''type'' \<noteq> Some (JStr ''object'')")
      case True
      with w have "kvs = [(''type'', JStr ''object''), (''properties'', JObj [(''___results'', schema)])]"
        by (simp add: wrap_root_def)
      with get ki show ?thesis by (simp add: obj_get_def)
    next
      case False
      with w have "schema = JObj kvs" by (simp add: wrap_root_def)
      with obj_get_size [OF get] show ?thesis by simp
    qed
  qed
qed

function enforceStrictSchema :: "json \<Rightarrow> bool \<Rightarrow> json" where
  "enforceStrictSchema schema isRoot =
     (if \<not> truthy schema \<or> \<not> typeof_object schema then schema
      else (case wrap_root schema isRoot of
              JObj kvs \<Rightarrow>
                if strict_type kvs
                then
                  let s1 = mark_strict kvs;
                      s2 = (case truthy_prop s1 ''properties'' of
                              Some p \<Rightarrow>
                                obj_set (require_keys s1 p) ''properties''
                                  (map_values (\<lambda>prop. enforceStrictSchema prop False) p)
                            | None \<Rightarrow> s1);
                      s3 = (case truthy_prop s1 ''items'' of
                              Some it \<Rightarrow>
                                drop_bounds (obj_set s2 ''items'' (enforceStrictSchema it False))
                            | None \<Rightarrow> s2)
                  in JObj s3
                else JObj kvs
            | other \<Rightarrow> other))"
  by pat_completeness auto
termination
proof (relation "measure (\<lambda>(schema, isRoot). 2 * size schema + (if isRoot then 1 else 0))", goal_cases)
  case 1
  show ?case by simp
next
  case (2 schema isRoot kvs s1 p v)
  from 2(4,5) have "truthy_prop (mark_strict kvs) ''properties'' = Some p" by simp
  from strict_calls_smaller(1) [OF 2(2) this] 2(6) show ?case by simp
next
  case (3 schema isRoot kvs s1 s2 it)
  from 3(4,6) have "truthy_prop (mark_strict kvs) ''items'' = Some it" by simp
  from strict_calls_smaller(2) [OF 3(2) this] show ?case by simp
qed

declare enforceStrictSchema.simps [simp del]

text \<open>
  \<open>generateObject\<close>. The helper \<open>addNullableToOptional\<close> (utils/tools.js), the vendor call
  \<open>chat.completions.create\<close>, \<open>JSON.parse\<close>, the environment variable \<open>OPENAI_MODEL\<close>, the
  date string and the digest of the cache are parameters. The result is what the call
  returns or throws, the cache afterwards, and the request sent to the vendor, if any.
\<close>

record LLMObjectResponse =
  response :: json
  messages :: "message list"

record openai_request =
  req_messages :: "message list"
  req_model :: string
  req_temperature :: "rat option"
  response_format :: json

record openai_env =
  addNullableToOptional :: "json option \<Rightarrow> json option"
  completions_create :: "openai_request \<Rightarrow> string + string"
  parse :: "string \<Rightarrow> string + json"
  OPENAI_MODEL :: "string option"
  date_iso :: string
  md5_hex :: digest

definition o_model :: "openai_env \<Rightarrow> bool" where
  "o_model env = (case OPENAI_MODEL env of Some (c # cs) \<Rightarrow> c = CHR ''o'' | _ \<Rightarrow> False)"

definition model_name :: "openai_env \<Rightarrow> string" where
  "model_name env = (case OPENAI_MODEL env of Some (c # cs) \<Rightarrow> c # cs | _ \<Rightarrow> ''gpt-4o'')"

definition strict_schema :: "json option \<Rightarrow> json option" where
  "strict_schema schema = map_option (\<lambda>s. enforceStrictSchema s True) schema"

definition responseFormat :: "json option \<Rightarrow> json" where
  "responseFormat schema =
     (case schema of
        Some s \<Rightarrow>
          if truthy s
          then JObj [(''type'', JStr ''json_schema''),
                     (''json_schema'', JObj [(''name'', JStr ''response''), (''strict'', JBool True),
                                             (''schema'', s)])]
          else JObj [(''type'', JStr ''json_object'')]
      | None \<Rightarrow> JObj [(''type'', JStr ''json_object'')])"

definition dateMessage :: "openai_env \<Rightarrow> message" where
  "dateMessage env =
     [(''role'', JStr ''system''), (''content'', JStr (''The current date and time is '' @ date_iso env))]"

definition assistant_message :: "string \<Rightarrow> message" where
  "assistant_message text = [(''role'', JStr ''assistant''), (''content'', JStr text)]"

definition parse_and_unwrap :: "openai_env \<Rightarrow> string \<Rightarrow> string + json" where
  "parse_and_unwrap env responseText =
     (case parse env responseText of
        Inl e \<Rightarrow> Inl e
      | Inr generatedObject \<Rightarrow>
          (case generatedObject of
             JNull \<Rightarrow> Inl (null_property_error ''___results'')
           | _ \<Rightarrow> (case js_prop generatedObject ''___results'' of
                      Some r \<Rightarrow> if truthy r then Inr r else Inr generatedObject
                    | None \<Rightarrow> Inr generatedObject)))"

definition generateObject ::
  "openai_env \<Rightarrow> LLMObjectResponse LLMResponseCache \<Rightarrow> int \<Rightarrow> int \<Rightarrow> message list \<Rightarrow> json option \<Rightarrow> rat
     \<Rightarrow> (string + LLMObjectResponse) \<times> LLMObjectResponse LLMResponseCache \<times> openai_request option" where
  "generateObject env objectCache now later msgs schema temperature =
     (let looked = (if temperature = 0
                    then cache_get (md5_hex env) objectCache now msgs temperature schema
                    else (None, objectCache))
      in (case fst looked of
            Some cached \<Rightarrow> (Inr cached, snd looked, None)
          | None \<Rightarrow>
              (let schema1 = strict_schema (addNullableToOptional env schema);
                   temperature1 = (if o_model env then None else Some temperature);
                   request = \<lparr> req_messages = dateMessage env # msgs,
                               req_model = model_name env,
                               req_temperature = temperature1,
                               response_format = responseFormat schema1 \<rparr>
               in (case completions_create env request of
                     Inl e \<Rightarrow> (Inl e, snd looked, Some request)
                   | Inr responseText \<Rightarrow>
                       (case parse_and_unwrap env responseText of
                          Inl e \<Rightarrow>
                            (Inl (''Failed to parse JSON response: '' @ e), snd looked, Some request)
                        | Inr generatedObject \<Rightarrow>
                            (let reply = \<lparr> response = generatedObject,
                                           messages = msgs @ [assistant_message responseText] \<rparr>;
                                 stored = (if temperature1 = Some 0
                                           then cache_set (md5_hex env) (snd looked) later msgs 0 reply schema1
                                           else snd looked)
                             in (Inr reply, stored, Some request)))))))"

text \<open>A vendor that answers the wrapped number schema with the number 0.\<close>

definition zero_reply :: string where
  \<open>zero_reply = ''{"___results":0}''\<close>

definition zero_env :: openai_env where
  "zero_env =
     \<lparr> addNullableToOptional = (\<lambda>schema. schema),
       completions_create = (\<lambda>request. Inr zero_reply),
       parse = (\<lambda>text. if text = zero_reply then Inr (JObj [(''___results'', JNum 0)])
                        else Inl ''Unexpected token''),
       OPENAI_MODEL = None,
       date_iso = ''2025-01-01T00:00:00.000Z'',
       md5_hex = demo_digest \<rparr>"

definition number_schema :: json where
  "number_schema = JObj [(''type'', JStr ''number'')]"

section \<open>Properties of the double-precision rounding\<close>

text \<open>The rounding to an integer is off by at most a half, the exponent found by \<open>ilog2\<close>
  is that of the binade of its argument, and so \<open>binary64 x\<close> is within half a unit in the
  last place of \<open>x\<close>.\<close>

lemma round_half_even_error: "\<bar>of_int (round_half_even x) - x\<bar> \<le> 1 / 2"
  unfolding round_half_even_def Let_def by (auto simp: abs_if) linarith+

lemma ilog2_bounds:
  assumes "0 < x"
  shows "2 powi ilog2 x \<le> x \<and> x < 2 powi (ilog2 x + 1)"
proof (cases "1 \<le> x")
  case True
  then have m: "0 < \<lfloor>x\<rfloor>" by simp
  from bitlen_bounds [OF m]
  have lo: "2 ^ nat (bitlen \<lfloor>x\<rfloor> - 1) \<le> \<lfloor>x\<rfloor>" and hi: "\<lfloor>x\<rfloor> < 2 ^ nat (bitlen \<lfloor>x\<rfloor>)"
    by simp_all
  from m have b: "1 \<le> bitlen \<lfloor>x\<rfloor>" by (auto simp: bitlen_alt_def)
  from lo have "rat_of_int (2 ^ nat (bitlen \<lfloor>x\<rfloor> - 1)) \<le> rat_of_int \<lfloor>x\<rfloor>" by (simp only: of_int_le_iff)
  then have "2 ^ nat (bitlen \<lfloor>x\<rfloor> - 1) \<le> rat_of_int \<lfloor>x\<rfloor>" by simp
  also have "rat_of_int \<lfloor>x\<rfloor> \<le> x" by (rule of_int_floor_le)
  finally have 1: "2 ^ nat (bitlen \<lfloor>x\<rfloor> - 1) \<le> x" .
  from hi have "\<lfloor>x\<rfloor> + 1 \<le> 2 ^ nat (bitlen \<lfloor>x\<rfloor>)" by simp
  then have "rat_of_int (\<lfloor>x\<rfloor> + 1) \<le> rat_of_int (2 ^ nat (bitlen \<lfloor>x\<rfloor>))" by (simp only: of_int_le_iff)
  then have "rat_of_int \<lfloor>x\<rfloor> + 1 \<le> 2 ^ nat (bitlen \<lfloor>x\<rfloor>)" by simp
  moreover have "x < rat_of_int \<lfloor>x\<rfloor> + 1" using floor_correct [of x] by simp
  ultimately have 2: "x < 2 ^ nat (bitlen \<lfloor>x\<rfloor>)" by (rule less_le_trans [rotated])
  from True b 1 2 show ?thesis
    by (simp add: ilog2_def power_int_def)
next
  case False
  with assms have y: "1 < 1 / x" by simp
  then have c: "0 < \<lceil>1 / x\<rceil> - 1" by (simp add: less_ceiling_iff)
  let ?c = "\<lceil>1 / x\<rceil>"
  let ?k = "bitlen (?c - 1)"
  from bitlen_bounds [OF c]
  have lo: "2 ^ nat (?k - 1) \<le> ?c - 1" and hi: "?c - 1 < 2 ^ nat ?k"
    by simp_all
  from c have b: "1 \<le> ?k" by (auto simp: bitlen_alt_def)
  from hi have "?c \<le> 2 ^ nat ?k" by simp
  then have "rat_of_int ?c \<le> rat_of_int (2 ^ nat ?k)" by (simp only: of_int_le_iff)
  then have "rat_of_int ?c \<le> 2 ^ nat ?k" by simp
  moreover have "1 / x \<le> rat_of_int ?c" by (rule le_of_int_ceiling)
  ultimately have "1 / x \<le> 2 ^ nat ?k" by (rule order_trans [rotated])
  with assms have 1: "1 / 2 ^ nat ?k \<le> x"
    by (simp add: field_simps)
  from lo have "rat_of_int (2 ^ nat (?k - 1)) \<le> rat_of_int (?c - 1)" by (simp only: of_int_le_iff)
  then have "2 ^ nat (?k - 1) \<le> rat_of_int ?c - 1" by simp
  moreover have "rat_of_int ?c - 1 < 1 / x" using ceiling_correct [of "1 / x"] by simp
  ultimately have "2 ^ nat (?k - 1) < 1 / x" by (rule le_less_trans)
  with assms have 2: "x < 1 / 2 ^ nat (?k - 1)"
    by (simp add: field_simps)
  have e1: "(2::rat) powi (- ?k) = 1 / 2 ^ nat ?k"
    using b by (simp add: power_int_def field_simps)
  have e2: "(2::rat) powi (- ?k + 1) = 1 / 2 ^ nat (?k - 1)"
    using b by (auto simp: power_int_def field_simps nat_diff_distrib)
  from False 1 2 e1 e2 show ?thesis
    by (simp add: ilog2_def)
qed

lemma binary64_error:
  assumes "x \<noteq> 0"
  shows "\<bar>binary64 x - x\<bar> \<le> 2 powi (max (ilog2 \<bar>x\<bar> - 52) (- 1074)) / 2"
proof -
  define u :: rat where "u = 2 powi (max (ilog2 \<bar>x\<bar> - 52) (- 1074))"
  define m where "m = rat_of_int (round_half_even (\<bar>x\<bar> / u))"
  have u: "0 < u" by (simp add: u_def)
  from assms have b: "binary64 x = sgn x * m * u"
    by (simp add: binary64_def Let_def u_def m_def)
  have "binary64 x - x = sgn x * (m * u - \<bar>x\<bar>)"
    by (simp only: b right_diff_distrib mult_sgn_abs mult.assoc)
  then have "\<bar>binary64 x - x\<bar> = \<bar>sgn x\<bar> * \<bar>m * u - \<bar>x\<bar>\<bar>"
    by (simp only: abs_mult)
  also have "\<bar>sgn x\<bar> = 1" using assms by (simp add: abs_sgn_eq)
  also have "m * u - \<bar>x\<bar> = (m - \<bar>x\<bar> / u) * u"
    using u by (simp add: field_simps)
  also have "\<bar>(m - \<bar>x\<bar> / u) * u\<bar> = \<bar>m - \<bar>x\<bar> / u\<bar> * u"
    using u by (simp add: abs_mult)
  finally have e: "\<bar>binary64 x - x\<bar> = \<bar>m - \<bar>x\<bar> / u\<bar> * u" by simp
  have "\<bar>m - \<bar>x\<bar> / u\<bar> \<le> 1 / 2"
    unfolding m_def by (rule round_half_even_error)
  then have "\<bar>m - \<bar>x\<bar> / u\<bar> * u \<le> 1 / 2 * u"
    by (rule mult_right_mono) (rule less_imp_le [OF u])
  with e have "\<bar>binary64 x - x\<bar> \<le> u / 2" by simp
  then show ?thesis by (simp only: u_def)
qed

text \<open>Evaluation on numerals.\<close>

lemma floor_numeral_divide:
  "\<lfloor>numeral a / numeral b :: rat\<rfloor> = numeral a div numeral b"
  by (metis floor_divide_of_int_eq of_int_numeral)

lemma ceiling_numeral_divide:
  "\<lceil>numeral a / numeral b :: rat\<rceil> = - (- numeral a div numeral b)"
  using ceiling_divide_eq_div [of "numeral a" "numeral b", where ?'a = rat] by simp

lemma bitlen_numeral:
  "bitlen (numeral (Num.Bit0 n)) = bitlen (numeral n) + 1"
  "bitlen (numeral (Num.Bit1 n)) = bitlen (numeral n) + 1"
  "bitlen 1 = 1"
  by (subst compute_bitlen, simp)+

lemmas double_eval = binary64_def ilog2_def round_half_even_def Let_def
  floor_numeral_divide ceiling_numeral_divide bitlen_numeral

text \<open>The doubles of the literals \<open>0.3\<close>, \<open>0.6\<close> and \<open>0.9\<close>, and the well-known sum
  \<open>0.1 + 0.2\<close>, which is \<open>0.30000000000000004\<close> and not the double of \<open>0.3\<close>.\<close>

lemma binary64_literals:
  "binary64 (3 / 10) = 5404319552844595 / 18014398509481984"
  "binary64 (3 / 5) = 5404319552844595 / 9007199254740992"
  "binary64 (9 / 10) = 8106479329266893 / 9007199254740992"
  "binary64 1 = 1"
  by (simp_all add: double_eval)

lemma binary64_sum_example:
  "binary64 (binary64 (1 / 10) + binary64 (1 / 5)) = 1351079888211149 / 4503599627370496"
  "binary64 (binary64 (1 / 10) + binary64 (1 / 5)) \<noteq> binary64 (3 / 10)"
  by (simp_all add: double_eval)

section \<open>Properties of the response cache\<close>


lemma find_oldest_Nil: "find_oldest [] = None"
  by (simp add: find_oldest_def)







lemma cache_set_fields [simp]:
  "maxSize (cache_set md5 c now msgs temp v sch) = maxSize c"
  "maxAge (cache_set md5 c now msgs temp v sch) = maxAge c"
  "enabled (cache_set md5 c now msgs temp v sch) = enabled c"
  by (simp_all add: cache_set_def Let_def)

lemma cache_get_fields [simp]:
  "maxSize (snd (cache_get md5 c now msgs temp sch)) = maxSize c"
  "maxAge (snd (cache_get md5 c now msgs temp sch)) = maxAge c"
  "enabled (snd (cache_get md5 c now msgs temp sch)) = enabled c"
  by (simp_all add: cache_get_def Let_def split: option.splits)








text \<open>
  C5. On an enabled cache, \<open>set(M, 0, V, S)\<close> at time \<open>now\<close> followed by \<open>get(M, 0, S)\<close> at
  a time \<open>now'\<close> at which no more than \<open>maxAge\<close> has elapsed returns \<open>V\<close>, for every
  message list \<open>M\<close>, value \<open>V\<close> and absent or given schema \<open>S\<close>.
\<close>

theorem cache_set_get_roundtrip:
  assumes "enabled c" and "now' - now \<le> maxAge c"
  shows "fst (cache_get md5 (cache_set md5 c now msgs 0 v sch) now' msgs 0 sch) = Some v"
  using assms by (simp add: cache_get_def cache_set_def Let_def update_conv')

theorem cache_set_get_roundtrip_witness:
  "enabled (new_cache None :: string LLMResponseCache)
   \<and> 1000 - 0 \<le> maxAge (new_cache None :: string LLMResponseCache)
   \<and> fst (cache_get demo_digest
            (cache_set demo_digest (new_cache None) 0 [user_message ''test message''] 0
               ''test response'' (Some (JObj [(''type'', JStr ''string'')])))
            1000 [user_message ''test message''] 0 (Some (JObj [(''type'', JStr ''string'')])))
       = Some ''test response''"
  using cache_set_get_roundtrip
          [of "new_cache None :: string LLMResponseCache" 1000 0 demo_digest
              "[user_message ''test message'']" "''test response''"
              "Some (JObj [(''type'', JStr ''string'')])"]
  by (simp add: new_cache_def or_default_def)




subsection \<open>Key derivation\<close>

lemma map_of_write_key:
  "map_of (write_key kvs f r a) k =
     (if k = a \<and> a \<noteq> ''__proto__'' \<and> map_of kvs a \<noteq> None
      then map_option f (map_of kvs a) else map_of r k)"
  by (cases "map_of kvs a")
     (simp_all add: write_key_def assign_property_def obj_get_def map_of_obj_set)

lemma map_of_foldl_write:
  "map_of (foldl (write_key kvs f) r ks) k =
     (if k \<in> set ks \<and> k \<noteq> ''__proto__'' \<and> map_of kvs k \<noteq> None
      then map_option f (map_of kvs k) else map_of r k)"
proof (induction ks arbitrary: r)
  case Nil
  then show ?case by simp
next
  case (Cons a ks)
  show ?case by (auto simp: Cons.IH map_of_write_key)
qed

lemma write_key_abs:
  "(\<lambda>result key. case obj_get kvs key of Some v \<Rightarrow> assign_property result key (f v) | None \<Rightarrow> result)
     = write_key kvs f"
  by (intro ext) (simp add: write_key_def)

lemma normalizeObject_obj:
  "normalizeObject (JObj kvs) = JObj (foldl (write_key kvs normalizeObject) [] (sort (obj_keys kvs)))"
  by (simp add: write_key_abs)

lemma map_of_normalized:
  "map_of (foldl (write_key kvs f) [] (sort (obj_keys kvs))) k
     = (if k = ''__proto__'' then None else map_option f (map_of kvs k))"
proof -
  have "k \<in> set (map fst kvs) \<longleftrightarrow> map_of kvs k \<noteq> None"
    by (simp add: map_of_eq_None_iff)
  then show ?thesis
    by (cases "map_of kvs k") (auto simp: map_of_foldl_write obj_keys_def)
qed

lemma sort_same_keys:
  fixes xs ys :: "string list"
  assumes "distinct xs" "distinct ys" "set xs = set ys"
  shows "sort xs = sort ys"
proof (rule sorted_distinct_set_unique)
  show "sorted (sort xs)" "sorted (sort ys)" by simp_all
  show "distinct (sort xs)" "distinct (sort ys)" using assms by simp_all
  show "set (sort xs) = set (sort ys)" using assms by simp
qed

lemma wf_json_value: "wf_json (JObj kvs) \<Longrightarrow> map_of kvs k = Some v \<Longrightarrow> wf_json v"
  by (auto simp: list_all_iff dest: map_of_SomeD)

lemma proto_free_value: "proto_free (JObj kvs) \<Longrightarrow> map_of kvs k = Some v \<Longrightarrow> proto_free v"
  by (auto simp: list_all_iff dest: map_of_SomeD)

lemma proto_free_key: "proto_free (JObj kvs) \<Longrightarrow> map_of kvs ''__proto__'' = None"
  by (simp add: map_of_eq_None_iff)

lemma normalize_same:
  "wf_json a \<Longrightarrow> wf_json b \<Longrightarrow> same_up_to_key_order a b \<Longrightarrow> normalizeObject a = normalizeObject b"
proof (induction a arbitrary: b)
  case (JArr xs)
  from JArr.prems(3) obtain ys where b: "b = JArr ys" by (cases b) auto
  with JArr.prems have l: "list_all2 same_up_to_key_order xs ys"
    and wx: "\<forall>x \<in> set xs. wf_json x" and wy: "\<forall>y \<in> set ys. wf_json y"
    by (simp_all add: list_all_iff)
  have "map normalizeObject xs = map normalizeObject ys"
  proof (rule nth_equalityI)
    show "length (map normalizeObject xs) = length (map normalizeObject ys)"
      using l by (simp add: list_all2_lengthD)
  next
    fix i assume "i < length (map normalizeObject xs)"
    then have i: "i < length xs" by simp
    with l have j: "i < length ys" and s: "same_up_to_key_order (xs ! i) (ys ! i)"
      by (simp_all add: list_all2_conv_all_nth)
    from i j wx wy have "wf_json (xs ! i)" "wf_json (ys ! i)" by simp_all
    with JArr.IH [of "xs ! i" "ys ! i"] i s have "normalizeObject (xs ! i) = normalizeObject (ys ! i)"
      by simp
    with i j show "map normalizeObject xs ! i = map normalizeObject ys ! i" by simp
  qed
  with b show ?case by simp
next
  case (JObj xs)
  from JObj.prems(3) obtain ys where b: "b = JObj ys" by (cases b) auto
  with JObj.prems have keys: "set (map fst xs) = set (map fst ys)"
    and dx: "distinct (map fst xs)" and dy: "distinct (map fst ys)"
    and vals: "\<forall>(k, v) \<in> set xs. case map_of ys k of Some w \<Rightarrow> same_up_to_key_order v w | None \<Rightarrow> False"
    by (simp_all add: list_all_iff)
  have srt: "sort (obj_keys xs) = sort (obj_keys ys)"
    unfolding obj_keys_def using dx dy keys by (rule sort_same_keys)
  have step: "write_key xs normalizeObject r key = write_key ys normalizeObject r key"
    if "key \<in> set (sort (obj_keys ys))" for r key
  proof -
    from that keys have "key \<in> fst ` set xs" by (simp add: obj_keys_def)
    then obtain v where v: "map_of xs key = Some v"
      by (metis map_of_eq_None_iff not_Some_eq)
    then have mem: "(key, v) \<in> set xs" by (rule map_of_SomeD)
    with vals obtain w where w: "map_of ys key = Some w" and s: "same_up_to_key_order v w"
      by (auto split: option.splits)
    from JObj.prems(1) v have wv: "wf_json v" by (rule wf_json_value)
    from JObj.prems(2) b w have ww: "wf_json w" by (auto intro: wf_json_value)
    from mem have "v \<in> Basic_BNFs.snds (key, v)" by simp
    from JObj.IH [OF mem this wv ww s] have "normalizeObject v = normalizeObject w" .
    with v w show ?thesis by (simp add: write_key_def obj_get_def)
  qed
  have "foldl (write_key xs normalizeObject) [] (sort (obj_keys xs))
          = foldl (write_key ys normalizeObject) [] (sort (obj_keys ys))"
    by (rule foldl_cong) (simp_all add: srt step)
  with b show ?case by (simp only: normalizeObject_obj)
qed (cases b; simp)+

lemma normalize_same_conv:
  "wf_json a \<Longrightarrow> wf_json b \<Longrightarrow> normalizeObject a = normalizeObject b
     \<Longrightarrow> proto_free a \<Longrightarrow> proto_free b \<Longrightarrow> same_up_to_key_order a b"
proof (induction a arbitrary: b)
  case (JArr xs)
  from JArr.prems(3) obtain ys where b: "b = JArr ys"
    by (cases b) (simp_all del: normalizeObject.simps(6) add: normalizeObject_obj)
  with JArr.prems have e: "map normalizeObject xs = map normalizeObject ys"
    and wx: "\<forall>x \<in> set xs. wf_json x" and wy: "\<forall>y \<in> set ys. wf_json y"
    and px: "\<forall>x \<in> set xs. proto_free x" and py: "\<forall>y \<in> set ys. proto_free y"
    by (simp_all add: list_all_iff)
  from e have len: "length xs = length ys" by (rule map_eq_imp_length_eq)
  have "list_all2 same_up_to_key_order xs ys"
  proof (rule list_all2_all_nthI [OF len])
    fix i assume i: "i < length xs"
    with len have j: "i < length ys" by simp
    from e i j have "normalizeObject (xs ! i) = normalizeObject (ys ! i)"
      by (metis nth_map)
    moreover from i j wx wy have "wf_json (xs ! i)" "wf_json (ys ! i)" by simp_all
    moreover from i j px py have "proto_free (xs ! i)" "proto_free (ys ! i)" by simp_all
    ultimately show "same_up_to_key_order (xs ! i) (ys ! i)"
      using JArr.IH [of "xs ! i" "ys ! i"] i by simp
  qed
  with b show ?case by simp
next
  case (JObj xs)
  from JObj.prems(3) obtain ys where b: "b = JObj ys"
    by (cases b) (simp_all del: normalizeObject.simps(6) add: normalizeObject_obj)
  with JObj.prems have dx: "distinct (map fst xs)" and dy: "distinct (map fst ys)"
    by simp_all
  from JObj.prems(3) b
  have "foldl (write_key xs normalizeObject) [] (sort (obj_keys xs))
          = foldl (write_key ys normalizeObject) [] (sort (obj_keys ys))"
    by (simp only: normalizeObject_obj json.inject)
  then have "map_of (foldl (write_key xs normalizeObject) [] (sort (obj_keys xs))) k
          = map_of (foldl (write_key ys normalizeObject) [] (sort (obj_keys ys))) k" for k
    by simp
  then have m': "(if k = ''__proto__'' then None else map_option normalizeObject (map_of xs k))
                   = (if k = ''__proto__'' then None else map_option normalizeObject (map_of ys k))" for k
    by (simp only: map_of_normalized)
  from JObj.prems(4) have nx: "map_of xs ''__proto__'' = None" by (rule proto_free_key)
  from JObj.prems(5) b have ny: "map_of ys ''__proto__'' = None" by (simp only: proto_free_key)
  have m: "map_option normalizeObject (map_of xs k) = map_option normalizeObject (map_of ys k)" for k
    using m' [of k] nx ny by (cases "k = ''__proto__''") simp_all
  have keys: "set (map fst xs) = set (map fst ys)"
  proof -
    have "(map_of xs k = None) = (map_of ys k = None)" for k
      using m [of k] by (cases "map_of xs k"; cases "map_of ys k") simp_all
    then have "(k \<notin> fst ` set xs) = (k \<notin> fst ` set ys)" for k
      by (simp only: map_of_eq_None_iff)
    then have "fst ` set xs = fst ` set ys" by blast
    then show ?thesis by (simp only: set_map)
  qed
  have vals: "case map_of ys k of Some w \<Rightarrow> same_up_to_key_order v w | None \<Rightarrow> False"
    if mem: "(k, v) \<in> set xs" for k v
  proof -
    from dx mem have v: "map_of xs k = Some v" by simp
    with m [of k] obtain w where w: "map_of ys k = Some w" and e: "normalizeObject v = normalizeObject w"
      by (cases "map_of ys k") auto
    from JObj.prems(1) v have wv: "wf_json v" by (rule wf_json_value)
    from JObj.prems(2) b w have ww: "wf_json w" by (auto intro: wf_json_value)
    from JObj.prems(4) v have pv: "proto_free v" by (rule proto_free_value)
    from JObj.prems(5) b w have pw: "proto_free w" by (auto intro: proto_free_value)
    from mem have "v \<in> Basic_BNFs.snds (k, v)" by simp
    from JObj.IH [OF mem this wv ww e pv pw] w show ?thesis by simp
  qed
  have "\<forall>kv \<in> set xs. (case kv of (k, v) \<Rightarrow>
           (case map_of ys k of Some w \<Rightarrow> same_up_to_key_order v w | None \<Rightarrow> False))"
  proof
    fix kv assume "kv \<in> set xs"
    then have "(fst kv, snd kv) \<in> set xs" by simp
    from vals [OF this] show "case kv of (k, v) \<Rightarrow>
           (case map_of ys k of Some w \<Rightarrow> same_up_to_key_order v w | None \<Rightarrow> False)"
      by (simp add: case_prod_beta)
  qed
  with keys have "same_up_to_key_order (JObj xs) (JObj ys)"
    by (simp add: list_all_iff)
  with b show ?case by simp
next
  case JNull
  then show ?case by (cases b) (simp_all del: normalizeObject.simps(6) add: normalizeObject_obj)
next
  case (JBool x)
  then show ?case by (cases b) (simp_all del: normalizeObject.simps(6) add: normalizeObject_obj)
next
  case (JNum x)
  then show ?case by (cases b) (simp_all del: normalizeObject.simps(6) add: normalizeObject_obj)
next
  case (JStr x)
  then show ?case by (cases b) (simp_all del: normalizeObject.simps(6) add: normalizeObject_obj)
qed

lemma same_truthy: "same_up_to_key_order a b \<Longrightarrow> truthy a = truthy b"
  by (cases a; cases b) auto

lemma make_keyObj_same:
  assumes "wf_json s1" "wf_json s2" "same_up_to_key_order s1 s2"
  shows "make_keyObj msgs temp (Some s1) = make_keyObj msgs temp (Some s2)"
  using normalize_same [OF assms] same_truthy [OF assms(3)]
  by (simp add: make_keyObj_def)

text \<open>
  What holds of the key derivation. The key is the digest of the key object. The key
  object, and so the key, is the same for two well-formed schemas that differ only in
  the order of object keys, at any depth, so a value stored under one is read back
  under the other; and it depends on a message only through its \<open>role\<close> and \<open>content\<close>.
\<close>

lemma key_order_invariance:
  assumes "wf_json s1" and "wf_json s2" and "same_up_to_key_order s1 s2"
  shows "generateKey md5 m t (Some s1) = generateKey md5 m t (Some s2)"
    and "enabled c \<Longrightarrow> now' - now \<le> maxAge c \<Longrightarrow>
           fst (cache_get md5 (cache_set md5 c now m t v (Some s1)) now' m t (Some s2)) = Some v"
proof -
  show a: "generateKey md5 m t (Some s1) = generateKey md5 m t (Some s2)"
    using make_keyObj_same [OF assms] by (simp add: generateKey_def)
  show "fst (cache_get md5 (cache_set md5 c now m t v (Some s1)) now' m t (Some s2)) = Some v"
    if "enabled c" "now' - now \<le> maxAge c"
    using a that by (simp add: cache_get_def cache_set_def Let_def update_conv')
qed

lemma key_reads_role_and_content:
  "map reduce_message m = map reduce_message m' \<Longrightarrow> generateKey md5 m t sch = generateKey md5 m' t sch"
  by (simp add: generateKey_def make_keyObj_def)

text \<open>
  For truthy schemas in which no object has the key \<open>__proto__\<close>, two key objects are equal
  exactly when the reduced messages, the temperatures and the schemas up to key order
  are equal.
\<close>

lemma make_keyObj_eq_iff:
  assumes "wf_json s1" "wf_json s2" "truthy s1" "truthy s2" "proto_free s1" "proto_free s2"
  shows "(make_keyObj m t (Some s1) = make_keyObj m' t' (Some s2))
       = (map reduce_message m = map reduce_message m' \<and> t = t' \<and> same_up_to_key_order s1 s2)"
  using normalize_same [OF assms(1,2)] normalize_same_conv [OF assms(1,2) _ assms(5,6)] assms(3,4)
  by (auto simp: make_keyObj_def)

text \<open>The unit tests on schemas: the two orders of \<open>name\<close> and \<open>age\<close> give one key object;
  the schemas with the property \<open>name\<close> and with the property \<open>age\<close> give two.\<close>

lemma unit_test_key_order:
  "make_keyObj [user_message ''test message''] 0 (Some schema_name_age)
     = make_keyObj [user_message ''test message''] 0 (Some schema_age_name)"
proof -
  have "wf_json schema_name_age" "wf_json schema_age_name"
    by (simp_all add: schema_name_age_def schema_age_name_def)
  moreover have "same_up_to_key_order schema_name_age schema_age_name"
    by (simp add: schema_name_age_def schema_age_name_def insert_commute)
  ultimately show ?thesis by (rule make_keyObj_same)
qed

lemma unit_test_different_schemas:
  "make_keyObj [user_message ''test message''] 0 (Some schema_name)
     \<noteq> make_keyObj [user_message ''test message''] 0 (Some schema_age)"
proof -
  have "\<not> same_up_to_key_order schema_name schema_age"
    by (simp add: schema_name_def schema_age_def)
  moreover have "wf_json schema_name" "wf_json schema_age" "truthy schema_name" "truthy schema_age"
    "proto_free schema_name" "proto_free schema_age"
    by (simp_all add: schema_name_def schema_age_def)
  ultimately show ?thesis by (simp add: make_keyObj_eq_iff)
qed

text \<open>
  C7. The claim fails on the code for schemas that differ under a key \<open>__proto__\<close>. The two
  schemas of the unit test on different schemas, with the property named \<open>__proto__\<close>
  instead of \<open>name\<close> and \<open>age\<close>, are well formed and truthy and differ in the type of that
  property, yet \<open>normalizeObject\<close> maps both to \<open>{properties: {}, type: 'object'}\<close>. Their key
  objects are equal, so their keys are equal under every digest, and the test's two
  writes followed by a read under the first schema return the response that was stored
  under the second.
\<close>

theorem proto_property_schemas_share_key:
  "wf_json schema_proto_string \<and> wf_json schema_proto_number
   \<and> truthy schema_proto_string \<and> truthy schema_proto_number
   \<and> \<not> same_up_to_key_order schema_proto_string schema_proto_number
   \<and> normalizeObject schema_proto_string = JObj [(''properties'', JObj []), (''type'', JStr ''object'')]
   \<and> normalizeObject schema_proto_number = JObj [(''properties'', JObj []), (''type'', JStr ''object'')]
   \<and> make_keyObj m t (Some schema_proto_string) = make_keyObj m t (Some schema_proto_number)
   \<and> generateKey md5 m t (Some schema_proto_string) = generateKey md5 m t (Some schema_proto_number)
   \<and> fst (cache_get md5
            (cache_set md5
               (cache_set md5 (new_cache None) 0 m 0 ''response 1'' (Some schema_proto_string))
               0 m 0 ''response 2'' (Some schema_proto_number))
            0 m 0 (Some schema_proto_string)) = Some ''response 2''"
proof -
  have n: "normalizeObject schema_proto_string = JObj [(''properties'', JObj []), (''type'', JStr ''object'')]"
          "normalizeObject schema_proto_number = JObj [(''properties'', JObj []), (''type'', JStr ''object'')]"
    by (simp_all add: schema_proto_string_def schema_proto_number_def obj_keys_def obj_get_def
          obj_set_def assign_property_def index_of_key_def is_digit_def)
  then have k: "make_keyObj m t (Some schema_proto_string) = make_keyObj m t (Some schema_proto_number)"
    for t by (simp add: make_keyObj_def schema_proto_string_def schema_proto_number_def)
  have g: "generateKey md5 m t (Some schema_proto_string) = generateKey md5 m t (Some schema_proto_number)"
    for t using k [of t] by (simp add: generateKey_def)
  have w: "wf_json schema_proto_string \<and> wf_json schema_proto_number
           \<and> truthy schema_proto_string \<and> truthy schema_proto_number
           \<and> \<not> same_up_to_key_order schema_proto_string schema_proto_number"
    by (simp add: schema_proto_string_def schema_proto_number_def)
  have e: "enabled (new_cache None :: string LLMResponseCache)"
          "0 \<le> maxAge (new_cache None :: string LLMResponseCache)"
    by (simp_all add: new_cache_def or_default_def)
  have h: "fst (cache_get md5
            (cache_set md5
               (cache_set md5 (new_cache None) 0 m 0 ''response 1'' (Some schema_proto_string))
               0 m 0 ''response 2'' (Some schema_proto_number))
            0 m 0 (Some schema_proto_string)) = Some ''response 2''"
    using e g [of 0] by (simp add: cache_get_def cache_set_def Let_def update_conv')
  from w n k g h show ?thesis by simp
qed

section \<open>Properties of the job queue\<close>

declare worker_loop.simps [simp del]

lemma worker_loop_Nil: "queue s = [] \<Longrightarrow> worker_loop s = s\<lparr>isProcessing := False\<rparr>"
  by (subst worker_loop.simps) simp

lemma worker_loop_pending:
  "queue s = job # rest \<Longrightarrow> throws_on_call (task job) = None
     \<Longrightarrow> worker_loop s = (begin_job job rest s)\<lparr>awaiting := Some job\<rparr>"
  by (subst worker_loop.simps) (simp add: begin_job_def logMessage_def Let_def)

lemma worker_loop_throws:
  "queue s = job # rest \<Longrightarrow> throws_on_call (task job) = Some e
     \<Longrightarrow> worker_loop s = worker_loop (settled (Threw e) job (begin_job job rest s))"
  by (subst worker_loop.simps) (simp add: begin_job_def logMessage_def Let_def)

lemmas queue_fields = begin_job_def settled_def logMessage_def

lemma worker_loop_inv: "loop_inv s \<Longrightarrow> queue_inv (worker_loop s)"
proof (induction s rule: worker_loop.induct)
  case (1 s)
  show ?case
  proof (cases "queue s")
    case Nil
    with "1.prems" show ?thesis
      by (simp add: worker_loop_Nil loop_inv_def queue_inv_def pending_def)
  next
    case (Cons job rest)
    show ?thesis
    proof (cases "throws_on_call (task job)")
      case None
      with "1.prems" Cons show ?thesis
        by (auto simp: worker_loop_pending loop_inv_def queue_inv_def pending_def queue_fields)
    next
      case (Some e)
      from "1.prems" Cons have "loop_inv (settled (Threw e) job (begin_job job rest s))"
        by (auto simp: loop_inv_def queue_fields)
      with "1.IH" [OF Cons refl refl Some] have "queue_inv (worker_loop (settled (Threw e) job (begin_job job rest s)))"
        by (simp add: queue_fields)
      with Cons Some show ?thesis by (simp add: worker_loop_throws)
    qed
  qed
qed

lemma new_queue_inv: "queue_inv (new_queue ty)"
  by (simp add: queue_inv_def new_queue_def pending_def)

lemma enqueue_inv: "queue_inv s \<Longrightarrow> queue_inv (enqueue i t s)"
proof (cases "i \<in> jobSet s")
  case True
  assume "queue_inv s"
  with True show ?thesis
    by (simp add: enqueue_def queue_inv_def pending_def logMessage_def)
next
  case False
  assume inv: "queue_inv s"
  show ?thesis
  proof (cases "awaiting s")
    case None
    with inv False have "loop_inv (s\<lparr>queue := queue s @ [\<lparr>ident = i, task = t\<rparr>],
                                      jobSet := insert i (jobSet s), isProcessing := True\<rparr>)"
      by (auto simp: queue_inv_def loop_inv_def pending_def)
    from worker_loop_inv [OF this] inv None False show ?thesis
      by (simp add: enqueue_def processQueue_def queue_inv_def)
  next
    case (Some job)
    with inv False show ?thesis
      by (auto simp: enqueue_def processQueue_def queue_inv_def pending_def)
  qed
qed

lemma settle_inv: "queue_inv s \<Longrightarrow> queue_inv (settle out s)"
proof (cases "awaiting s")
  case None
  assume "queue_inv s"
  with None show ?thesis by (simp add: settle_def)
next
  case (Some job)
  assume inv: "queue_inv s"
  with Some have "loop_inv (settled out job (s\<lparr>awaiting := None\<rparr>))"
    by (cases out) (auto simp: queue_inv_def loop_inv_def pending_def queue_fields)
  from worker_loop_inv [OF this] Some show ?thesis
    by (simp add: settle_def)
qed

lemma step_inv: "queue_inv s \<Longrightarrow> queue_inv (step s e)"
  by (cases e) (simp_all add: enqueue_inv settle_inv)

lemma run_inv: "queue_inv s \<Longrightarrow> queue_inv (run s es)"
  unfolding run_def by (induction es arbitrary: s) (simp_all add: step_inv)

lemma worker_loop_trace:
  "started (worker_loop s) @ queue (worker_loop s) = started s @ queue s"
proof (induction s rule: worker_loop.induct)
  case (1 s)
  show ?case
  proof (cases "queue s")
    case Nil
    then show ?thesis by (simp add: worker_loop_Nil)
  next
    case (Cons job rest)
    show ?thesis
    proof (cases "throws_on_call (task job)")
      case None
      with Cons show ?thesis by (simp add: worker_loop_pending queue_fields)
    next
      case (Some e)
      from "1.IH" [OF Cons refl refl Some] Cons Some show ?thesis
        by (simp add: worker_loop_throws queue_fields)
    qed
  qed
qed


lemma settle_trace: "started (settle out s) @ queue (settle out s) = started s @ queue s"
  by (cases "awaiting s"; cases out) (simp_all add: settle_def worker_loop_trace queue_fields)


lemma worker_loop_jobSet: "jobSet (worker_loop s) \<subseteq> jobSet s"
proof (induction s rule: worker_loop.induct)
  case (1 s)
  show ?case
  proof (cases "queue s")
    case Nil
    then show ?thesis by (simp add: worker_loop_Nil)
  next
    case (Cons job rest)
    show ?thesis
    proof (cases "throws_on_call (task job)")
      case None
      with Cons show ?thesis by (simp add: worker_loop_pending queue_fields)
    next
      case (Some e)
      from "1.IH" [OF Cons refl refl Some] Cons Some show ?thesis
        by (auto simp: worker_loop_throws queue_fields)
    qed
  qed
qed

lemma worker_loop_shrinks: "length (queue (worker_loop s)) \<le> length (queue s) - 1"
proof (induction s rule: worker_loop.induct)
  case (1 s)
  show ?case
  proof (cases "queue s")
    case Nil
    then show ?thesis by (simp add: worker_loop_Nil)
  next
    case (Cons job rest)
    show ?thesis
    proof (cases "throws_on_call (task job)")
      case None
      with Cons show ?thesis by (simp add: worker_loop_pending queue_fields)
    next
      case (Some e)
      from "1.IH" [OF Cons refl refl Some] Cons Some show ?thesis
        by (simp add: worker_loop_throws queue_fields)
    qed
  qed
qed

lemma worker_loop_started: "\<exists>ys. started (worker_loop s) = started s @ ys"
proof (induction s rule: worker_loop.induct)
  case (1 s)
  show ?case
  proof (cases "queue s")
    case Nil
    then show ?thesis by (simp add: worker_loop_Nil)
  next
    case (Cons job rest)
    show ?thesis
    proof (cases "throws_on_call (task job)")
      case None
      with Cons show ?thesis by (simp add: worker_loop_pending queue_fields)
    next
      case (Some e)
      from "1.IH" [OF Cons refl refl Some] Cons Some show ?thesis
        by (auto simp: worker_loop_throws queue_fields)
    qed
  qed
qed

lemma settle_started: "set (started s) \<subseteq> set (started (settle out s))"
proof (cases "awaiting s")
  case None
  then show ?thesis by (simp add: settle_def)
next
  case (Some job)
  from worker_loop_started [of "settled out job (s\<lparr>awaiting := None\<rparr>)"]
  obtain ys where "started (worker_loop (settled out job (s\<lparr>awaiting := None\<rparr>)))
                     = started (settled out job (s\<lparr>awaiting := None\<rparr>)) @ ys" ..
  with Some show ?thesis by (cases out) (auto simp: settle_def queue_fields)
qed

lemma settles_started: "set (started s) \<subseteq> set (started (run s (map Settle outs)))"
  unfolding run_def
proof (induction outs arbitrary: s)
  case Nil
  then show ?case by simp
next
  case (Cons out outs)
  from settle_started [of s out] Cons.IH [of "settle out s"] show ?case by auto
qed

lemma settle_released:
  assumes "queue_inv s" and "awaiting s = Some job"
  shows "ident job \<notin> jobSet (settle out s)"
proof -
  from assms have "ident job \<notin> jobSet (settled out job (s\<lparr>awaiting := None\<rparr>))"
    by (cases out) (simp_all add: queue_fields)
  with worker_loop_jobSet [of "settled out job (s\<lparr>awaiting := None\<rparr>)"] assms(2)
  show ?thesis by (auto simp: settle_def)
qed

lemma settle_shrinks:
  assumes "awaiting s = Some job"
  shows "length (queue (settle out s)) \<le> length (queue s) - 1"
  using worker_loop_shrinks [of "settled out job (s\<lparr>awaiting := None\<rparr>)"] assms
  by (cases out) (simp_all add: settle_def queue_fields)

lemma queued_jobs_start:
  "queue_inv s \<Longrightarrow> awaiting s \<noteq> None \<Longrightarrow> length (queue s) \<le> length outs
     \<Longrightarrow> set (queue s) \<subseteq> set (started (run s (map Settle outs)))"
proof (induction outs arbitrary: s)
  case Nil
  then show ?case by simp
next
  case (Cons out outs)
  let ?s' = "settle out s"
  from Cons.prems(2) obtain job where job: "awaiting s = Some job" by auto
  have inv': "queue_inv ?s'" using Cons.prems(1) by (rule settle_inv)
  have tr: "started ?s' @ queue ?s' = started s @ queue s" by (rule settle_trace)
  then have "set (queue s) \<subseteq> set (started ?s') \<union> set (queue ?s')"
    by (metis Un_upper2 set_append)
  moreover have "set (started ?s') \<subseteq> set (started (run ?s' (map Settle outs)))"
    by (rule settles_started)
  moreover have "set (queue ?s') \<subseteq> set (started (run ?s' (map Settle outs)))"
  proof (cases "awaiting ?s'")
    case None
    with inv' have "queue ?s' = []" by (simp add: queue_inv_def)
    then show ?thesis by simp
  next
    case (Some j)
    from settle_shrinks [OF job, of out] Cons.prems(3)
    have "length (queue ?s') \<le> length outs" by simp
    with Cons.IH [OF inv'] Some show ?thesis by simp
  qed
  ultimately show ?case by (auto simp: run_def)
qed

lemma settle_next_started:
  assumes "awaiting s = Some job" and "queue s = next_job # rest"
  shows "next_job \<in> set (started (settle out s))"
proof -
  let ?s0 = "settled out job (s\<lparr>awaiting := None\<rparr>)"
  from assms(2) have q: "queue ?s0 = next_job # rest" by (cases out) (simp_all add: queue_fields)
  have "next_job \<in> set (started (worker_loop ?s0))"
  proof (cases "throws_on_call (task next_job)")
    case None
    from worker_loop_pending [OF q None] show ?thesis by (simp add: queue_fields)
  next
    case (Some e)
    from worker_loop_started [of "settled (Threw e) next_job (begin_job next_job rest ?s0)"]
    obtain ys where "started (worker_loop (settled (Threw e) next_job (begin_job next_job rest ?s0)))
                       = started (settled (Threw e) next_job (begin_job next_job rest ?s0)) @ ys" ..
    with worker_loop_throws [OF q Some] show ?thesis by (simp add: queue_fields)
  qed
  with assms(1) show ?thesis by (simp add: settle_def)
qed

lemma settle_threw_as_returned:
  assumes "awaiting s = Some job"
  shows "settle (Threw e) s = settle Returned (logMessage Error (error_notice s job e) s)"
proof -
  have "settled (Threw e) job (s\<lparr>awaiting := None\<rparr>)
          = settled Returned job ((logMessage Error (error_notice s job e) s)\<lparr>awaiting := None\<rparr>)"
    by (rule Queue.equality) (simp_all add: queue_fields error_notice_def)
  moreover have "awaiting (logMessage Error (error_notice s job e) s) = Some job"
    using assms by (simp add: logMessage_def)
  ultimately show ?thesis using assms by (simp add: settle_def)
qed

lemma enqueue_sync_throw:
  assumes "queue_inv s" and "awaiting s = None" and "i \<notin> jobSet s"
  shows "enqueue i (Task n (Some e)) s
           = s\<lparr>logged := logged s @ [(Info, processing_notice s \<lparr>ident = i, task = Task n (Some e)\<rparr>),
                                      (Error, error_notice s \<lparr>ident = i, task = Task n (Some e)\<rparr> e)],
               started := started s @ [\<lparr>ident = i, task = Task n (Some e)\<rparr>]\<rparr>"
proof -
  let ?job = "\<lparr>ident = i, task = Task n (Some e)\<rparr>"
  from assms have q: "queue s = []" and p: "\<not> isProcessing s" by (simp_all add: queue_inv_def)
  let ?s1 = "s\<lparr>queue := queue s @ [?job], jobSet := insert i (jobSet s), isProcessing := True\<rparr>"
  have "worker_loop ?s1 = worker_loop (settled (Threw e) ?job (begin_job ?job [] ?s1))"
    by (rule worker_loop_throws) (simp_all add: q)
  also have "\<dots> = (settled (Threw e) ?job (begin_job ?job [] ?s1))\<lparr>isProcessing := False\<rparr>"
    by (rule worker_loop_Nil) (simp add: queue_fields)
  finally show ?thesis using assms(3) q p
    by (simp add: enqueue_def processQueue_def queue_fields processing_notice_def error_notice_def)
qed



lemma worker_loop_logged: "\<exists>ys. logged (worker_loop s) = logged s @ ys"
proof (induction s rule: worker_loop.induct)
  case (1 s)
  show ?case
  proof (cases "queue s")
    case Nil
    then show ?thesis by (simp add: worker_loop_Nil)
  next
    case (Cons job rest)
    show ?thesis
    proof (cases "throws_on_call (task job)")
      case None
      with Cons show ?thesis by (simp add: worker_loop_pending queue_fields)
    next
      case (Some e)
      from "1.IH" [OF Cons refl refl Some] Cons Some show ?thesis
        by (auto simp: worker_loop_throws queue_fields)
    qed
  qed
qed

lemma settle_threw_logged:
  assumes "awaiting s = Some job"
  shows "(Error, error_notice s job e) \<in> set (logged (settle (Threw e) s))"
proof -
  let ?s0 = "settled (Threw e) job (s\<lparr>awaiting := None\<rparr>)"
  from worker_loop_logged [of ?s0] obtain ys where "logged (worker_loop ?s0) = logged ?s0 @ ys" ..
  with assms show ?thesis by (simp add: settle_def queue_fields error_notice_def)
qed

lemmas queue_eval = run_def new_queue_def enqueue_def processQueue_def settle_def settled_def
  logMessage_def worker_loop.simps processing_notice_def error_notice_def duplicate_notice_def
  pending_def Let_def job_a_def job_b_def job_c_def



text \<open>
  C9. In every state a queue can reach, when the awaited task throws, the error is
  logged and the loop goes on exactly as after a normal return: the id is released, the
  next queued job is called at once, and every queued job is called after at most as
  many further settlements as there are queued jobs, whatever their outcomes. A task
  that throws when it is called inside \<open>enqueue\<close> is caught there: \<open>enqueue\<close> returns,
  having logged the error and released the id.
\<close>

theorem task_error_is_caught_and_logged:
  assumes "s = run (new_queue ty) es" and "s' = run (new_queue ty') es'"
  shows "(awaiting s = Some job \<longrightarrow>
            settle (Threw e) s = settle Returned (logMessage Error (error_notice s job e) s)
          \<and> (Error, error_notice s job e) \<in> set (logged (settle (Threw e) s))
          \<and> ident job \<notin> jobSet (settle (Threw e) s)
          \<and> (queue s \<noteq> [] \<longrightarrow> hd (queue s) \<in> set (started (settle (Threw e) s)))
          \<and> (length (queue s) \<le> Suc (length outs) \<longrightarrow>
               set (queue s) \<subseteq> set (started (run s (map Settle (Threw e # outs))))))
       \<and> (awaiting s' = None \<and> i \<notin> jobSet s' \<longrightarrow>
            enqueue i (Task n (Some e')) s'
              = s'\<lparr>logged := logged s' @
                     [(Info, processing_notice s' \<lparr>ident = i, task = Task n (Some e')\<rparr>),
                      (Error, error_notice s' \<lparr>ident = i, task = Task n (Some e')\<rparr> e')],
                    started := started s' @ [\<lparr>ident = i, task = Task n (Some e')\<rparr>]\<rparr>)"
proof -
  from assms have inv: "queue_inv s" and inv': "queue_inv s'"
    by (simp_all add: run_inv new_queue_inv)
  have async: "settle (Threw e) s = settle Returned (logMessage Error (error_notice s job e) s)
          \<and> (Error, error_notice s job e) \<in> set (logged (settle (Threw e) s))
          \<and> ident job \<notin> jobSet (settle (Threw e) s)
          \<and> (queue s \<noteq> [] \<longrightarrow> hd (queue s) \<in> set (started (settle (Threw e) s)))
          \<and> (length (queue s) \<le> Suc (length outs) \<longrightarrow>
               set (queue s) \<subseteq> set (started (run s (map Settle (Threw e # outs)))))"
    if aw: "awaiting s = Some job"
  proof -
    have 1: "settle (Threw e) s = settle Returned (logMessage Error (error_notice s job e) s)"
      using aw by (rule settle_threw_as_returned)
    have 2: "(Error, error_notice s job e) \<in> set (logged (settle (Threw e) s))"
      using aw by (rule settle_threw_logged)
    have 3: "ident job \<notin> jobSet (settle (Threw e) s)"
      using inv aw by (rule settle_released)
    have 4: "hd (queue s) \<in> set (started (settle (Threw e) s))" if "queue s \<noteq> []"
    proof -
      from that obtain nj rest where "queue s = nj # rest" by (cases "queue s") auto
      with settle_next_started [OF aw this, of "Threw e"] show ?thesis by simp
    qed
    have 5: "set (queue s) \<subseteq> set (started (run s (map Settle (Threw e # outs))))"
      if "length (queue s) \<le> Suc (length outs)"
    proof (rule queued_jobs_start [OF inv])
      show "awaiting s \<noteq> None" using aw by simp
      show "length (queue s) \<le> length (Threw e # outs)" using that by simp
    qed
    from 1 2 3 4 5 show ?thesis by blast
  qed
  have sync: "enqueue i (Task n (Some e')) s'
              = s'\<lparr>logged := logged s' @
                     [(Info, processing_notice s' \<lparr>ident = i, task = Task n (Some e')\<rparr>),
                      (Error, error_notice s' \<lparr>ident = i, task = Task n (Some e')\<rparr> e')],
                    started := started s' @ [\<lparr>ident = i, task = Task n (Some e')\<rparr>]\<rparr>"
    if "awaiting s' = None" "i \<notin> jobSet s'"
    using inv' that by (rule enqueue_sync_throw)
  from async sync show ?thesis by blast
qed

theorem task_error_witness:
  "awaiting (run (new_queue ''docs'') three_jobs) = Some job_a
   \<and> queue (run (new_queue ''docs'') three_jobs) = [job_b, job_c]
   \<and> length (queue (run (new_queue ''docs'') three_jobs)) \<le> Suc (length [Returned])
   \<and> started (settle (Threw ''failed'') (run (new_queue ''docs'') three_jobs)) = [job_a, job_b]
   \<and> started (run (run (new_queue ''docs'') three_jobs) (map Settle [Threw ''failed'', Returned]))
       = [job_a, job_b, job_c]
   \<and> logged (run (run (new_queue ''docs'') three_jobs) (map Settle [Threw ''failed'', Returned]))
       = [(Info, ''Processing docs a''), (Error, ''Error processing docs a: failed''),
          (Info, ''Processing docs b''), (Info, ''Processing docs c''),
          (Error, ''Error processing docs c: boom'')]
   \<and> jobSet (run (run (new_queue ''docs'') three_jobs) (map Settle [Threw ''failed'', Returned])) = {}
   \<and> \<not> isProcessing (run (run (new_queue ''docs'') three_jobs) (map Settle [Threw ''failed'', Returned]))
   \<and> awaiting (run (new_queue ''docs'') []) = None
   \<and> ''c'' \<notin> jobSet (run (new_queue ''docs'') [])
   \<and> enqueue ''c'' (Task ''third'' (Some ''boom'')) (run (new_queue ''docs'') [])
       = \<lparr> queue = [], isProcessing = False, jobSet = {}, qtype = ''docs'', awaiting = None,
           logged = [(Info, ''Processing docs c''), (Error, ''Error processing docs c: boom'')],
           started = [job_c] \<rparr>"
  using task_error_is_caught_and_logged
          [of "run (new_queue ''docs'') three_jobs" "''docs''" three_jobs
              "run (new_queue ''docs'') []" "''docs''" "[]" job_a "''failed''" "[Returned]"
              "''c''" "''third''" "''boom''"]
  by (auto simp: queue_eval three_jobs_def)

section \<open>Properties of the instruction suggestions\<close>

lemmas sanitize_eval = sanitizeInstructionSuggestions_def clean_line_def trim_def strip_bullet_def
  strip_number_def strip_quotes_def is_header_def prefix_ci_def eq_ci_def is_js_space_def
  is_line_terminator_def is_digit_def Let_def

declare retry_loop.simps [simp del]

text \<open>The temperatures of the four attempts; a fifth would run at \<open>1\<close>. The fourth is one
  unit in the last place below the double of \<open>0.9\<close>.\<close>

lemma attempt_temperature_values:
  "attempt_temperature 0 = 0"
  "attempt_temperature 1 = 5404319552844595 / 18014398509481984"
  "attempt_temperature 2 = 5404319552844595 / 9007199254740992"
  "attempt_temperature 3 = 2026619832316723 / 2251799813685248"
  "attempt_temperature 4 = 1"
  "attempt_temperature (Suc 0) = 5404319552844595 / 18014398509481984"
  by (simp_all add: attempt_temperature_def binary64_literals) (simp_all add: double_eval)

lemma fourth_temperature_below_literal:
  "attempt_temperature 1 = binary64 (3 / 10)"
  "attempt_temperature 2 = binary64 (3 / 5)"
  "attempt_temperature 3 = binary64 (9 / 10) - 1 / 2 ^ 53"
  "attempt_temperature 3 \<noteq> binary64 (9 / 10)"
  by (simp_all add: attempt_temperature_values binary64_literals)

lemma attempt_fst: "fst (attemptInstructionGeneration js llm msgs retry st) = attempt_result js llm msgs retry"
  by (simp add: attempt_result_def attemptInstructionGeneration_def Let_def split: sum.splits)

lemma attempt_requests:
  "requests (snd (attemptInstructionGeneration js llm msgs retry st))
     = requests st @ [(msgs, attempt_temperature retry)]"
  by (simp add: attemptInstructionGeneration_def Let_def emit_def split: sum.splits)

lemma attempt_surj:
  "attemptInstructionGeneration js llm msgs retry st
     = (attempt_result js llm msgs retry, snd (attemptInstructionGeneration js llm msgs retry st))"
  using attempt_fst [of js llm msgs retry st]
  by (cases "attemptInstructionGeneration js llm msgs retry st") simp

lemma retry_loop_return:
  assumes "n \<le> MAX_RETRIES" and "attempt_result js llm msgs n = Inr v"
  shows "retry_loop js llm msgs n st
           = (Inr v, snd (attemptInstructionGeneration js llm msgs n (emit Info (generating_notice n) st)))"
  using assms
  by (subst retry_loop.simps, subst attempt_surj) simp

lemma retry_loop_retry:
  assumes "n < MAX_RETRIES" and "attempt_result js llm msgs n = Inl e"
  shows "retry_loop js llm msgs n st
           = retry_loop js llm (msgs @ [feedback_message e]) (Suc n)
               (emit Warn retrying_notice
                  (snd (attemptInstructionGeneration js llm msgs n (emit Info (generating_notice n) st))))"
  using assms
  by (subst retry_loop.simps, subst attempt_surj) simp

lemma retry_loop_exhausted:
  assumes "attempt_result js llm msgs MAX_RETRIES = Inl e"
  shows "retry_loop js llm msgs MAX_RETRIES st
           = (Inl e, emit Error (exhausted_notice e)
                       (snd (attemptInstructionGeneration js llm msgs MAX_RETRIES
                               (emit Info (generating_notice MAX_RETRIES) st))))"
  using assms
  by (subst retry_loop.simps, subst attempt_surj) simp

lemma requests_emit [simp]: "requests (emit lv msg st) = requests st"
  by (simp add: emit_def)

lemma loop_temperatures:
  "n \<le> MAX_RETRIES \<Longrightarrow>
     \<exists>j. 1 \<le> j \<and> n + j \<le> Suc MAX_RETRIES
       \<and> map snd (requests (snd (retry_loop js llm msgs n st)))
           = map snd (requests st) @ map attempt_temperature [n ..< n + j]"
proof (induction js llm msgs n st rule: retry_loop.induct)
  case (1 js llm msgs n st)
  let ?st2 = "snd (attemptInstructionGeneration js llm msgs n (emit Info (generating_notice n) st))"
  have req: "map snd (requests ?st2) = map snd (requests st) @ [attempt_temperature n]"
    by (simp add: attempt_requests)
  show ?case
  proof (cases "attempt_result js llm msgs n")
    case (Inr v)
    from retry_loop_return [OF "1.prems" Inr, of st] req "1.prems"
    have "1 \<le> (1::nat) \<and> n + 1 \<le> Suc MAX_RETRIES
           \<and> map snd (requests (snd (retry_loop js llm msgs n st)))
               = map snd (requests st) @ map attempt_temperature [n ..< n + 1]"
      by simp
    then show ?thesis by blast
  next
    case (Inl e)
    show ?thesis
    proof (cases "n = MAX_RETRIES")
      case True
      from retry_loop_exhausted [of js llm msgs e st] Inl True req
      have "1 \<le> (1::nat) \<and> n + 1 \<le> Suc MAX_RETRIES
           \<and> map snd (requests (snd (retry_loop js llm msgs n st)))
               = map snd (requests st) @ map attempt_temperature [n ..< n + 1]"
        by simp
      then show ?thesis by blast
    next
      case False
      with "1.prems" have lt: "n < MAX_RETRIES" by simp
      have a: "attemptInstructionGeneration js llm msgs n (emit Info (generating_notice n) st) = (Inl e, ?st2)"
        using attempt_surj [of js llm msgs n] Inl by simp
      from lt have "\<not> MAX_RETRIES < Suc n" "Suc n \<le> MAX_RETRIES" by simp_all
      from "1.IH" [OF "1.prems" a [symmetric] refl this]
      obtain j where j: "1 \<le> j" "Suc n + j \<le> Suc MAX_RETRIES"
        "map snd (requests (snd (retry_loop js llm (msgs @ [feedback_message e]) (Suc n)
                                   (emit Warn retrying_notice ?st2))))
           = map snd (requests (emit Warn retrying_notice ?st2)) @ map attempt_temperature [Suc n ..< Suc n + j]"
        by blast
      have "[n ..< n + Suc j] = n # [Suc n ..< Suc n + j]"
        by (simp add: upt_conv_Cons)
      with j req retry_loop_retry [OF lt Inl, of st]
      have "1 \<le> Suc j \<and> n + Suc j \<le> Suc MAX_RETRIES
           \<and> map snd (requests (snd (retry_loop js llm msgs n st)))
               = map snd (requests st) @ map attempt_temperature [n ..< n + Suc j]"
        by simp
      then show ?thesis by blast
    qed
  qed
qed

lemma loop_thrown:
  "n \<le> MAX_RETRIES \<Longrightarrow> fst (retry_loop js llm msgs n st) = Inl e \<Longrightarrow>
     length (requests (snd (retry_loop js llm msgs n st))) = length (requests st) + (Suc MAX_RETRIES - n)
     \<and> attempt_result js llm (fst (last (requests (snd (retry_loop js llm msgs n st))))) MAX_RETRIES = Inl e"
proof (induction js llm msgs n st rule: retry_loop.induct)
  case (1 js llm msgs n st)
  let ?st2 = "snd (attemptInstructionGeneration js llm msgs n (emit Info (generating_notice n) st))"
  have req: "requests ?st2 = requests st @ [(msgs, attempt_temperature n)]"
    by (simp add: attempt_requests)
  show ?case
  proof (cases "attempt_result js llm msgs n")
    case (Inr v)
    from retry_loop_return [OF "1.prems"(1) Inr, of st] "1.prems"(2) show ?thesis by simp
  next
    case (Inl e')
    show ?thesis
    proof (cases "n = MAX_RETRIES")
      case True
      from retry_loop_exhausted [of js llm msgs e' st] Inl True
      have L: "retry_loop js llm msgs n st = (Inl e', emit Error (exhausted_notice e') ?st2)"
        by simp
      with "1.prems"(2) have "e' = e" by simp
      with L req True Inl show ?thesis by simp
    next
      case False
      with "1.prems" have lt: "n < MAX_RETRIES" by simp
      have a: "attemptInstructionGeneration js llm msgs n (emit Info (generating_notice n) st) = (Inl e', ?st2)"
        using attempt_surj [of js llm msgs n] Inl by simp
      from lt have b: "\<not> MAX_RETRIES < Suc n" "Suc n \<le> MAX_RETRIES" by simp_all
      have L: "retry_loop js llm msgs n st
                 = retry_loop js llm (msgs @ [feedback_message e']) (Suc n) (emit Warn retrying_notice ?st2)"
        using lt Inl by (rule retry_loop_retry)
      with "1.prems"(2)
      have "fst (retry_loop js llm (msgs @ [feedback_message e']) (Suc n) (emit Warn retrying_notice ?st2)) = Inl e"
        by simp
      from "1.IH" [OF "1.prems"(1) a [symmetric] refl b this] L req lt show ?thesis
        by simp
    qed
  qed
qed

lemma loop_rejected:
  "\<forall>msgs n. \<exists>e. attempt_result js llm msgs n = Inl e \<Longrightarrow> n \<le> MAX_RETRIES
     \<Longrightarrow> \<exists>e. fst (retry_loop js llm msgs n st) = Inl e"
proof (induction js llm msgs n st rule: retry_loop.induct)
  case (1 js llm msgs n st)
  let ?st2 = "snd (attemptInstructionGeneration js llm msgs n (emit Info (generating_notice n) st))"
  from "1.prems"(1) obtain e where Inl: "attempt_result js llm msgs n = Inl e" by blast
  show ?case
  proof (cases "n = MAX_RETRIES")
    case True
    from retry_loop_exhausted [of js llm msgs e st] Inl True show ?thesis by simp
  next
    case False
    with "1.prems" have lt: "n < MAX_RETRIES" by simp
    have a: "attemptInstructionGeneration js llm msgs n (emit Info (generating_notice n) st) = (Inl e, ?st2)"
      using attempt_surj [of js llm msgs n] Inl by simp
    from lt have b: "\<not> MAX_RETRIES < Suc n" "Suc n \<le> MAX_RETRIES" by simp_all
    from "1.IH" [OF "1.prems"(2) a [symmetric] refl b(1) "1.prems"(1) b(2)]
      retry_loop_retry [OF lt Inl, of st]
    show ?thesis by simp
  qed
qed

lemma generate_rejected:
  assumes rej: "\<forall>msgs n. \<exists>e. attempt_result js llm msgs n = Inl e"
  shows "map snd (requests (snd (generateInstructions js llm sys)))
           = [attempt_temperature 0, attempt_temperature 1, attempt_temperature 2, attempt_temperature 3]
       \<and> (\<exists>e. fst (generateInstructions js llm sys) = Inl e)
       \<and> fst (generateInstructions js llm sys)
           = attempt_result js llm (fst (last (requests (snd (generateInstructions js llm sys))))) 3"
proof -
  let ?L = "retry_loop js llm (initial_messages sys) 0 \<lparr>requests = [], emitted = []\<rparr>"
  from loop_rejected [OF rej, of 0] obtain e where e: "fst ?L = Inl e" by auto
  from loop_thrown [OF _ e] have len: "length (requests (snd ?L)) = 4"
    and last: "attempt_result js llm (fst (last (requests (snd ?L)))) MAX_RETRIES = Inl e"
    by (simp_all add: MAX_RETRIES_def)
  from loop_temperatures [of 0 js llm "initial_messages sys" "\<lparr>requests = [], emitted = []\<rparr>"]
  obtain j where j: "map snd (requests (snd ?L)) = map attempt_temperature [0 ..< j]"
    by auto
  then have "length (requests (snd ?L)) = j"
    by (metis diff_zero length_map length_upt)
  with len have "j = 4" by simp
  have "[0 ..< 4] = [0, 1, 2, 3::nat]" by (simp add: upt_rec)
  with j \<open>j = 4\<close> have "map snd (requests (snd ?L))
      = [attempt_temperature 0, attempt_temperature 1, attempt_temperature 2, attempt_temperature 3]"
    by simp
  with e last show ?thesis
    by (simp add: generateInstructions_def MAX_RETRIES_def)
qed

lemma attempt_sanitized_empty:
  assumes "llm msgs instruction_schema (attempt_temperature n) = Inr (JArr xs)" and "xs \<noteq> []"
    and "sanitizeInstructionSuggestions js (JArr xs) = []"
  shows "attemptInstructionGeneration js llm msgs n st
           = (Inr [], emit Error sanitization_notice
                        (st\<lparr>requests := requests st @ [(msgs, attempt_temperature n)]\<rparr>))"
  using assms by (simp add: attemptInstructionGeneration_def Let_def)

lemma generate_returns_empty:
  assumes "llm (initial_messages sys) instruction_schema 0 = Inr (JArr xs)" and "xs \<noteq> []"
    and "sanitizeInstructionSuggestions js (JArr xs) = []"
  shows "generateInstructions js llm sys
           = (Inr [], \<lparr>requests = [(initial_messages sys, 0)],
                        emitted = [(Info, generating_notice 0), (Error, sanitization_notice)]\<rparr>)"
proof -
  have t: "attempt_temperature 0 = 0" by (rule attempt_temperature_values)
  from assms(1) t have a: "llm (initial_messages sys) instruction_schema (attempt_temperature 0) = Inr (JArr xs)"
    by simp
  note at = attempt_sanitized_empty [of llm "initial_messages sys" 0 xs js, OF a assms(2,3)]
  have r: "attempt_result js llm (initial_messages sys) 0 = Inr []"
    using at by (simp add: attempt_result_def)
  have "0 \<le> MAX_RETRIES" by simp
  from retry_loop_return [OF this r] at t
  show ?thesis by (simp add: generateInstructions_def emit_def)
qed

lemma failing_model_rejects: "\<forall>msgs n. \<exists>e. attempt_result js failing_model msgs n = Inl e"
  by (simp add: attempt_result_def attemptInstructionGeneration_def failing_model_def Let_def)

text \<open>
  The requests of a run of the loop from attempt \<open>n\<close>. The first is made with the messages
  the loop was entered with. Every attempt but the last threw, and the next request
  carries one more message, the feedback on that error. The loop ends with the result of
  its last attempt, which it returns or throws; it throws only after the attempt
  numbered \<open>MAX_RETRIES\<close>.
\<close>

lemma loop_trace:
  "n \<le> MAX_RETRIES \<Longrightarrow>
     \<exists>rs. requests (snd (retry_loop js llm msgs n st)) = requests st @ rs
        \<and> rs \<noteq> [] \<and> n + length rs \<le> Suc MAX_RETRIES
        \<and> fst (rs ! 0) = msgs
        \<and> fst (retry_loop js llm msgs n st) = attempt_result js llm (fst (last rs)) (n + length rs - 1)
        \<and> (\<forall>i. Suc i < length rs \<longrightarrow>
              (\<exists>e. attempt_result js llm (fst (rs ! i)) (n + i) = Inl e
                  \<and> fst (rs ! Suc i) = fst (rs ! i) @ [feedback_message e]))
        \<and> ((\<exists>e. fst (retry_loop js llm msgs n st) = Inl e) \<longrightarrow> n + length rs = Suc MAX_RETRIES)"
proof (induction js llm msgs n st rule: retry_loop.induct)
  case (1 js llm msgs n st)
  let ?st2 = "snd (attemptInstructionGeneration js llm msgs n (emit Info (generating_notice n) st))"
  let ?r = "(msgs, attempt_temperature n)"
  have req: "requests ?st2 = requests st @ [?r]"
    by (simp add: attempt_requests)
  show ?case
  proof (cases "attempt_result js llm msgs n")
    case (Inr v)
    from retry_loop_return [OF "1.prems" Inr, of st]
    have L: "retry_loop js llm msgs n st = (Inr v, ?st2)" .
    show ?thesis
    proof (intro exI [of _ "[?r]"] conjI)
      show "requests (snd (retry_loop js llm msgs n st)) = requests st @ [?r]"
        using L req by simp
      show "fst (retry_loop js llm msgs n st) = attempt_result js llm (fst (last [?r])) (n + length [?r] - 1)"
        using L Inr by simp
      show "(\<exists>e. fst (retry_loop js llm msgs n st) = Inl e) \<longrightarrow> n + length [?r] = Suc MAX_RETRIES"
        using L by simp
    qed (use "1.prems" in simp_all)
  next
    case (Inl e')
    show ?thesis
    proof (cases "n = MAX_RETRIES")
      case True
      from retry_loop_exhausted [of js llm msgs e' st] Inl True
      have L: "retry_loop js llm msgs n st = (Inl e', emit Error (exhausted_notice e') ?st2)"
        by simp
      show ?thesis
      proof (intro exI [of _ "[?r]"] conjI)
        show "requests (snd (retry_loop js llm msgs n st)) = requests st @ [?r]"
          using L req by simp
        show "fst (retry_loop js llm msgs n st) = attempt_result js llm (fst (last [?r])) (n + length [?r] - 1)"
          using L Inl by simp
        show "(\<exists>e. fst (retry_loop js llm msgs n st) = Inl e) \<longrightarrow> n + length [?r] = Suc MAX_RETRIES"
          using True by simp
      qed (use "1.prems" in simp_all)
    next
      case False
      with "1.prems" have lt: "n < MAX_RETRIES" by simp
      let ?msgs' = "msgs @ [feedback_message e']"
      let ?st' = "emit Warn retrying_notice ?st2"
      have a: "attemptInstructionGeneration js llm msgs n (emit Info (generating_notice n) st) = (Inl e', ?st2)"
        using attempt_surj [of js llm msgs n] Inl by simp
      from lt have b: "\<not> MAX_RETRIES < Suc n" "Suc n \<le> MAX_RETRIES" by simp_all
      have L: "retry_loop js llm msgs n st = retry_loop js llm ?msgs' (Suc n) ?st'"
        using lt Inl by (rule retry_loop_retry)
      from "1.IH" [OF "1.prems" a [symmetric] refl b]
      obtain rs where rq: "requests (snd (retry_loop js llm ?msgs' (Suc n) ?st')) = requests ?st' @ rs"
        and ne: "rs \<noteq> []" and len: "Suc n + length rs \<le> Suc MAX_RETRIES"
        and first: "fst (rs ! 0) = ?msgs'"
        and res: "fst (retry_loop js llm ?msgs' (Suc n) ?st')
                    = attempt_result js llm (fst (last rs)) (Suc n + length rs - 1)"
        and chain: "\<And>i. Suc i < length rs \<Longrightarrow>
              \<exists>e. attempt_result js llm (fst (rs ! i)) (Suc n + i) = Inl e
                  \<and> fst (rs ! Suc i) = fst (rs ! i) @ [feedback_message e]"
        and thrown: "(\<exists>e. fst (retry_loop js llm ?msgs' (Suc n) ?st') = Inl e)
                       \<longrightarrow> Suc n + length rs = Suc MAX_RETRIES"
        by blast
      show ?thesis
      proof (intro exI [of _ "?r # rs"] conjI allI impI)
        show "requests (snd (retry_loop js llm msgs n st)) = requests st @ ?r # rs"
          using L rq req by simp
        show "?r # rs \<noteq> []" by simp
        show "n + length (?r # rs) \<le> Suc MAX_RETRIES" using len by simp
        show "fst ((?r # rs) ! 0) = msgs" by simp
        show "fst (retry_loop js llm msgs n st)
                = attempt_result js llm (fst (last (?r # rs))) (n + length (?r # rs) - 1)"
          using L res ne by simp
        show "n + length (?r # rs) = Suc MAX_RETRIES" if "\<exists>e. fst (retry_loop js llm msgs n st) = Inl e"
          using that L thrown by simp
        show "\<exists>e. attempt_result js llm (fst ((?r # rs) ! i)) (n + i) = Inl e
                  \<and> fst ((?r # rs) ! Suc i) = fst ((?r # rs) ! i) @ [feedback_message e]"
          if i: "Suc i < length (?r # rs)" for i
        proof (cases i)
          case 0
          with Inl first show ?thesis by simp
        next
          case (Suc j)
          with i have "Suc j < length rs" by simp
          from chain [OF this] Suc show ?thesis by simp
        qed
      qed
    qed
  qed
qed

lemma generate_trace:
  shows "requests (snd (generateInstructions js llm sys)) \<noteq> []"
    and "length (requests (snd (generateInstructions js llm sys))) \<le> 4"
    and "fst (requests (snd (generateInstructions js llm sys)) ! 0) = initial_messages sys"
    and "fst (generateInstructions js llm sys)
           = attempt_result js llm (fst (last (requests (snd (generateInstructions js llm sys)))))
               (length (requests (snd (generateInstructions js llm sys))) - 1)"
    and "Suc i < length (requests (snd (generateInstructions js llm sys))) \<Longrightarrow>
           \<exists>e. attempt_result js llm (fst (requests (snd (generateInstructions js llm sys)) ! i)) i = Inl e
              \<and> fst (requests (snd (generateInstructions js llm sys)) ! Suc i)
                  = fst (requests (snd (generateInstructions js llm sys)) ! i) @ [feedback_message e]"
proof -
  let ?L = "retry_loop js llm (initial_messages sys) 0 \<lparr>requests = [], emitted = []\<rparr>"
  have G: "generateInstructions js llm sys = ?L" by (simp add: generateInstructions_def)
  have "0 \<le> MAX_RETRIES" by simp
  from loop_trace [OF this, of js llm "initial_messages sys" "\<lparr>requests = [], emitted = []\<rparr>"]
  obtain rs where rq: "requests (snd ?L) = requests \<lparr>requests = [], emitted = []\<rparr> @ rs"
    and ne: "rs \<noteq> []" and len: "0 + length rs \<le> Suc MAX_RETRIES"
    and first: "fst (rs ! 0) = initial_messages sys"
    and res: "fst ?L = attempt_result js llm (fst (last rs)) (0 + length rs - 1)"
    and chain: "\<And>i. Suc i < length rs \<Longrightarrow>
              \<exists>e. attempt_result js llm (fst (rs ! i)) (0 + i) = Inl e
                  \<and> fst (rs ! Suc i) = fst (rs ! i) @ [feedback_message e]"
    by blast
  from rq have R: "requests (snd ?L) = rs" by simp
  show "requests (snd (generateInstructions js llm sys)) \<noteq> []"
    unfolding G R by (rule ne)
  show "length (requests (snd (generateInstructions js llm sys))) \<le> 4"
    unfolding G R using len by (simp add: MAX_RETRIES_def)
  show "fst (requests (snd (generateInstructions js llm sys)) ! 0) = initial_messages sys"
    unfolding G R by (rule first)
  show "fst (generateInstructions js llm sys)
           = attempt_result js llm (fst (last (requests (snd (generateInstructions js llm sys)))))
               (length (requests (snd (generateInstructions js llm sys))) - 1)"
    unfolding G R using res by simp
  show "\<exists>e. attempt_result js llm (fst (requests (snd (generateInstructions js llm sys)) ! i)) i = Inl e
              \<and> fst (requests (snd (generateInstructions js llm sys)) ! Suc i)
                  = fst (requests (snd (generateInstructions js llm sys)) ! i) @ [feedback_message e]"
    if "Suc i < length (requests (snd (generateInstructions js llm sys)))"
    using that chain [of i] unfolding G R by simp
qed

text \<open>
  C1 (as amended). Whenever an attempt obtains a non-empty array whose sanitation yields
  no item, whichever attempt of the loop it is, the attempt logs an error and returns
  the empty list without throwing, and the loop returns that empty list at once, after
  this one request: the attempt is not retried. Only an attempt that throws is retried,
  with the error fed back as a user message; when the attempt numbered \<open>MAX_RETRIES\<close>
  throws, the loop throws its error. So in every run of \<open>generateInstructions\<close> at most
  four requests are made, every request but the last belongs to an attempt that threw,
  the result is that of the last attempt, returned or thrown, and an error is thrown only
  after four requests.
\<close>

theorem empty_sanitation_is_returned_not_retried:
  "(llm msgs instruction_schema (attempt_temperature n) = Inr (JArr xs) \<and> xs \<noteq> []
      \<and> sanitizeInstructionSuggestions js (JArr xs) = []
    \<longrightarrow> attemptInstructionGeneration js llm msgs n st
          = (Inr [], emit Error sanitization_notice
                       (st\<lparr>requests := requests st @ [(msgs, attempt_temperature n)]\<rparr>))
        \<and> (n \<le> MAX_RETRIES \<longrightarrow>
             retry_loop js llm msgs n st
               = (Inr [], emit Error sanitization_notice
                            ((emit Info (generating_notice n) st)
                               \<lparr>requests := requests st @ [(msgs, attempt_temperature n)]\<rparr>))))
   \<and> (llm (initial_messages sys) instruction_schema 0 = Inr (JArr xs) \<and> xs \<noteq> []
      \<and> sanitizeInstructionSuggestions js (JArr xs) = []
    \<longrightarrow> generateInstructions js llm sys
          = (Inr [], \<lparr>requests = [(initial_messages sys, 0)],
                       emitted = [(Info, generating_notice 0), (Error, sanitization_notice)]\<rparr>))
   \<and> generateInstructions js llm sys
        = retry_loop js llm (initial_messages sys) 0 \<lparr>requests = [], emitted = []\<rparr>
   \<and> (k < MAX_RETRIES \<and> attempt_result js llm msgs2 k = Inl e
    \<longrightarrow> retry_loop js llm msgs2 k st2
          = retry_loop js llm (msgs2 @ [feedback_message e]) (Suc k)
              (emit Warn retrying_notice
                 (snd (attemptInstructionGeneration js llm msgs2 k (emit Info (generating_notice k) st2)))))
   \<and> (attempt_result js llm2 msgs3 MAX_RETRIES = Inl e3
    \<longrightarrow> retry_loop js llm2 msgs3 MAX_RETRIES st3
          = (Inl e3, emit Error (exhausted_notice e3)
                       (snd (attemptInstructionGeneration js llm2 msgs3 MAX_RETRIES
                               (emit Info (generating_notice MAX_RETRIES) st3)))))
   \<and> requests (snd (generateInstructions js llm sys)) \<noteq> []
   \<and> length (requests (snd (generateInstructions js llm sys))) \<le> 4
   \<and> fst (requests (snd (generateInstructions js llm sys)) ! 0) = initial_messages sys
   \<and> fst (generateInstructions js llm sys)
        = attempt_result js llm (fst (last (requests (snd (generateInstructions js llm sys)))))
            (length (requests (snd (generateInstructions js llm sys))) - 1)
   \<and> (\<forall>i. Suc i < length (requests (snd (generateInstructions js llm sys))) \<longrightarrow>
         (\<exists>e. attempt_result js llm (fst (requests (snd (generateInstructions js llm sys)) ! i)) i = Inl e
            \<and> fst (requests (snd (generateInstructions js llm sys)) ! Suc i)
                = fst (requests (snd (generateInstructions js llm sys)) ! i) @ [feedback_message e]))
   \<and> (fst (generateInstructions js llm2 sys2) = Inl e2
    \<longrightarrow> length (requests (snd (generateInstructions js llm2 sys2))) = 4
        \<and> attempt_result js llm2 (fst (last (requests (snd (generateInstructions js llm2 sys2))))) 3 = Inl e2)"
proof -
  have a: "attemptInstructionGeneration js llm msgs n st
          = (Inr [], emit Error sanitization_notice
                       (st\<lparr>requests := requests st @ [(msgs, attempt_temperature n)]\<rparr>))
        \<and> (n \<le> MAX_RETRIES \<longrightarrow>
             retry_loop js llm msgs n st
               = (Inr [], emit Error sanitization_notice
                            ((emit Info (generating_notice n) st)
                               \<lparr>requests := requests st @ [(msgs, attempt_temperature n)]\<rparr>)))"
    if h: "llm msgs instruction_schema (attempt_temperature n) = Inr (JArr xs)" "xs \<noteq> []"
          "sanitizeInstructionSuggestions js (JArr xs) = []"
  proof -
    note at = attempt_sanitized_empty [of llm msgs n xs js, OF h]
    have r: "attempt_result js llm msgs n = Inr []"
      using at by (simp add: attempt_result_def)
    have "retry_loop js llm msgs n st
               = (Inr [], emit Error sanitization_notice
                            ((emit Info (generating_notice n) st)
                               \<lparr>requests := requests st @ [(msgs, attempt_temperature n)]\<rparr>))"
      if "n \<le> MAX_RETRIES"
      using retry_loop_return [OF that r, of st] at [of "emit Info (generating_notice n) st"]
      by simp
    with at [of st] show ?thesis by blast
  qed
  have g: "generateInstructions js llm sys
        = retry_loop js llm (initial_messages sys) 0 \<lparr>requests = [], emitted = []\<rparr>"
    by (simp add: generateInstructions_def)
  have d: "length (requests (snd (generateInstructions js llm2 sys2))) = 4
        \<and> attempt_result js llm2 (fst (last (requests (snd (generateInstructions js llm2 sys2))))) 3 = Inl e2"
    if "fst (generateInstructions js llm2 sys2) = Inl e2"
    using loop_thrown [of 0 js llm2 "initial_messages sys2" "\<lparr>requests = [], emitted = []\<rparr>" e2] that
    by (simp add: generateInstructions_def MAX_RETRIES_def)
  note t = generate_trace(1-4) [of js llm sys]
  have c: "\<forall>i. Suc i < length (requests (snd (generateInstructions js llm sys))) \<longrightarrow>
         (\<exists>e. attempt_result js llm (fst (requests (snd (generateInstructions js llm sys)) ! i)) i = Inl e
            \<and> fst (requests (snd (generateInstructions js llm sys)) ! Suc i)
                = fst (requests (snd (generateInstructions js llm sys)) ! i) @ [feedback_message e])"
    using generate_trace(5) [of _ js llm sys] by blast
  have r: "retry_loop js llm msgs2 k st2
          = retry_loop js llm (msgs2 @ [feedback_message e]) (Suc k)
              (emit Warn retrying_notice
                 (snd (attemptInstructionGeneration js llm msgs2 k (emit Info (generating_notice k) st2))))"
    if "k < MAX_RETRIES \<and> attempt_result js llm msgs2 k = Inl e"
    using that retry_loop_retry [of k js llm msgs2 e st2] by blast
  have x: "retry_loop js llm2 msgs3 MAX_RETRIES st3
          = (Inl e3, emit Error (exhausted_notice e3)
                       (snd (attemptInstructionGeneration js llm2 msgs3 MAX_RETRIES
                               (emit Info (generating_notice MAX_RETRIES) st3))))"
    if "attempt_result js llm2 msgs3 MAX_RETRIES = Inl e3"
    using that by (rule retry_loop_exhausted)
  have b: "generateInstructions js llm sys
          = (Inr [], \<lparr>requests = [(initial_messages sys, 0)],
                       emitted = [(Info, generating_notice 0), (Error, sanitization_notice)]\<rparr>)"
    if "llm (initial_messages sys) instruction_schema 0 = Inr (JArr xs) \<and> xs \<noteq> []
          \<and> sanitizeInstructionSuggestions js (JArr xs) = []"
    using that generate_returns_empty [of llm sys xs js] by blast
  show ?thesis
    apply (intro conjI impI)
    subgoal using a by blast
    subgoal using a by blast
    subgoal using b by blast
    subgoal by (rule g)
    subgoal using r by blast
    subgoal using x by blast
    subgoal by (rule t(1))
    subgoal by (rule t(2))
    subgoal by (rule t(3))
    subgoal by (rule t(4))
    subgoal by (rule c)
    subgoal using d by blast
    subgoal using d by blast
    done
qed

theorem empty_sanitation_witness:
  "retry_then_blank_model (initial_messages ''[]'' @ [feedback_message ''first failure''])
       instruction_schema (attempt_temperature 1) = Inr (JArr [JStr ''   '', JStr ''- ''])
   \<and> [JStr ''   '', JStr ''- ''] \<noteq> []
   \<and> sanitizeInstructionSuggestions no_builtins (JArr [JStr ''   '', JStr ''- '']) = []
   \<and> 1 \<le> MAX_RETRIES \<and> 0 < MAX_RETRIES
   \<and> attempt_result no_builtins retry_then_blank_model (initial_messages ''[]'') 0 = Inl ''first failure''
   \<and> generateInstructions no_builtins retry_then_blank_model ''[]''
       = (Inr [], \<lparr>requests = [(initial_messages ''[]'', 0),
                                (initial_messages ''[]'' @ [feedback_message ''first failure''],
                                 attempt_temperature 1)],
                    emitted = [(Info, generating_notice 0), (Warn, retrying_notice),
                               (Info, generating_notice 1), (Error, sanitization_notice)]\<rparr>)
   \<and> Suc 0 < length (requests (snd (generateInstructions no_builtins retry_then_blank_model ''[]'')))
   \<and> fst (requests (snd (generateInstructions no_builtins retry_then_blank_model ''[]'')) ! Suc 0)
       = fst (requests (snd (generateInstructions no_builtins retry_then_blank_model ''[]'')) ! 0)
           @ [feedback_message ''first failure'']
   \<and> blank_lines_model (initial_messages ''[]'') instruction_schema 0 = Inr (JArr [JStr ''   '', JStr ''- ''])
   \<and> generateInstructions no_builtins blank_lines_model ''[]''
       = (Inr [], \<lparr>requests = [(initial_messages ''[]'', 0)],
                    emitted = [(Info, generating_notice 0), (Error, sanitization_notice)]\<rparr>)
   \<and> attempt_result no_builtins failing_model (initial_messages ''[]'') MAX_RETRIES = Inl ''fourth failure''
   \<and> retry_loop no_builtins failing_model (initial_messages ''[]'') MAX_RETRIES \<lparr>requests = [], emitted = []\<rparr>
       = (Inl ''fourth failure'',
          \<lparr>requests = [(initial_messages ''[]'', attempt_temperature 3)],
           emitted = [(Info, generating_notice 3), (Error, exhausted_notice ''fourth failure'')]\<rparr>)
   \<and> fst (generateInstructions no_builtins failing_model ''[]'') = Inl ''fourth failure''
   \<and> length (requests (snd (generateInstructions no_builtins failing_model ''[]''))) = 4"
proof -
  let ?I0 = "initial_messages ''[]''"
  let ?I1 = "initial_messages ''[]'' @ [feedback_message ''first failure'']"
  let ?S0 = "\<lparr>requests = [], emitted = []\<rparr>"
  let ?S1 = "\<lparr>requests = [(?I0, 0)], emitted = [(Info, generating_notice 0), (Warn, retrying_notice)]\<rparr>"
  have t1: "attempt_temperature 1 \<noteq> 0" by (simp add: attempt_temperature_values)
  have t3: "3 / 4 < attempt_temperature 3" by (simp add: attempt_temperature_values)
  have h1: "retry_then_blank_model ?I1 instruction_schema (attempt_temperature 1)
              = Inr (JArr [JStr ''   '', JStr ''- ''])"
    using t1 by (simp add: retry_then_blank_model_def)
  have h2: "sanitizeInstructionSuggestions no_builtins (JArr [JStr ''   '', JStr ''- '']) = []"
    by (simp add: sanitize_eval)
  have h3: "attempt_result no_builtins retry_then_blank_model ?I0 0 = Inl ''first failure''"
    by (simp add: attempt_result_def attemptInstructionGeneration_def retry_then_blank_model_def
        Let_def attempt_temperature_values)
  have s1: "emit Warn retrying_notice
              (snd (attemptInstructionGeneration no_builtins retry_then_blank_model ?I0 0
                      (emit Info (generating_notice 0) ?S0))) = ?S1"
    by (simp add: attemptInstructionGeneration_def retry_then_blank_model_def Let_def
        attempt_temperature_values emit_def)
  have h4: "attempt_result no_builtins failing_model m MAX_RETRIES = Inl ''fourth failure''" for m
    using t3 by (simp add: attempt_result_def attemptInstructionGeneration_def failing_model_def Let_def
        MAX_RETRIES_def)
  have s3: "snd (attemptInstructionGeneration no_builtins failing_model ?I0 MAX_RETRIES
                   (emit Info (generating_notice MAX_RETRIES) ?S0))
              = \<lparr>requests = [(?I0, attempt_temperature 3)], emitted = [(Info, generating_notice 3)]\<rparr>"
    using t3 by (simp add: attemptInstructionGeneration_def failing_model_def Let_def
        MAX_RETRIES_def emit_def)
  from generate_rejected [OF failing_model_rejects, of no_builtins "''[]''"] h4
  have h5: "fst (generateInstructions no_builtins failing_model ''[]'') = Inl ''fourth failure''"
    by (simp add: MAX_RETRIES_def)
  have h6: "blank_lines_model ?I0 instruction_schema 0 = Inr (JArr [JStr ''   '', JStr ''- ''])"
    by (simp add: blank_lines_model_def)
  note T = empty_sanitation_is_returned_not_retried
             [where llm = retry_then_blank_model and msgs = ?I1 and n = 1
                and xs = "[JStr ''   '', JStr ''- '']" and js = no_builtins and st = ?S1
                and sys = "''[]''" and k = 0 and ?msgs2.0 = ?I0 and e = "''first failure''"
                and ?st2.0 = ?S0 and ?llm2.0 = failing_model and ?msgs3.0 = ?I0
                and ?e3.0 = "''fourth failure''" and ?st3.0 = ?S0 and ?sys2.0 = "''[]''"
                and ?e2.0 = "''fourth failure''"]
  note B = empty_sanitation_is_returned_not_retried
             [where llm = blank_lines_model and xs = "[JStr ''   '', JStr ''- '']"
                and js = no_builtins and sys = "''[]''"]
  have m: "1 \<le> MAX_RETRIES" "0 < MAX_RETRIES" by (simp_all add: MAX_RETRIES_def)
  from T h1 h2 m(1)
  have A: "retry_loop no_builtins retry_then_blank_model ?I1 1 ?S1
             = (Inr [], emit Error sanitization_notice
                          ((emit Info (generating_notice 1) ?S1)
                             \<lparr>requests := requests ?S1 @ [(?I1, attempt_temperature 1)]\<rparr>))"
    by blast
  from T h3 m(2) s1
  have R: "retry_loop no_builtins retry_then_blank_model ?I0 0 ?S0
             = retry_loop no_builtins retry_then_blank_model ?I1 (Suc 0) ?S1"
    by simp
  from T have G: "generateInstructions no_builtins retry_then_blank_model ''[]''
                    = retry_loop no_builtins retry_then_blank_model ?I0 0 ?S0"
    by blast
  from G R A have g1: "generateInstructions no_builtins retry_then_blank_model ''[]''
       = (Inr [], \<lparr>requests = [(?I0, 0), (?I1, attempt_temperature 1)],
                    emitted = [(Info, generating_notice 0), (Warn, retrying_notice),
                               (Info, generating_notice 1), (Error, sanitization_notice)]\<rparr>)"
    by (simp add: emit_def)
  from B h6 h2
  have g2: "generateInstructions no_builtins blank_lines_model ''[]''
       = (Inr [], \<lparr>requests = [(?I0, 0)],
                    emitted = [(Info, generating_notice 0), (Error, sanitization_notice)]\<rparr>)"
    by blast
  from T h4 [of ?I0] s3
  have X: "retry_loop no_builtins failing_model ?I0 MAX_RETRIES ?S0
       = (Inl ''fourth failure'',
          \<lparr>requests = [(?I0, attempt_temperature 3)],
           emitted = [(Info, generating_notice 3), (Error, exhausted_notice ''fourth failure'')]\<rparr>)"
    by (simp add: emit_def MAX_RETRIES_def)
  from T h5
  have L: "length (requests (snd (generateInstructions no_builtins failing_model ''[]''))) = 4"
    by blast
  from g1 have i: "Suc 0 < length (requests (snd (generateInstructions no_builtins retry_then_blank_model ''[]'')))"
    by simp
  with T obtain e' where
    "attempt_result no_builtins retry_then_blank_model
       (fst (requests (snd (generateInstructions no_builtins retry_then_blank_model ''[]'')) ! 0)) 0 = Inl e'"
    and c: "fst (requests (snd (generateInstructions no_builtins retry_then_blank_model ''[]'')) ! Suc 0)
       = fst (requests (snd (generateInstructions no_builtins retry_then_blank_model ''[]'')) ! 0)
           @ [feedback_message e']"
    by blast
  with g1 h3 have "e' = ''first failure''" by simp
  with c have c': "fst (requests (snd (generateInstructions no_builtins retry_then_blank_model ''[]'')) ! Suc 0)
       = fst (requests (snd (generateInstructions no_builtins retry_then_blank_model ''[]'')) ! 0)
           @ [feedback_message ''first failure'']"
    by simp
  show ?thesis
    apply (intro conjI)
    subgoal by (rule h1)
    subgoal by simp
    subgoal by (rule h2)
    subgoal by (rule m(1))
    subgoal by (rule m(2))
    subgoal by (rule h3)
    subgoal by (rule g1)
    subgoal by (rule i)
    subgoal by (rule c')
    subgoal by (rule h6)
    subgoal by (rule g2)
    subgoal by (rule h4)
    subgoal by (rule X)
    subgoal by (rule h5)
    subgoal by (rule L)
    done
qed

text \<open>
  C1 as stated fails: a model that replies with two header lines, a non-empty array
  that sanitizes to nothing, makes \<open>generateInstructions\<close> return the empty list after a
  single request.
\<close>

theorem empty_list_returned_counterexample:
  "nonempty_array (JArr [JStr ''Individual Suggestions:'', JStr ''Integration Suggestions:''])
   \<and> headers_only_model (initial_messages ''[]'') instruction_schema 0
       = Inr (JArr [JStr ''Individual Suggestions:'', JStr ''Integration Suggestions:''])
   \<and> fst (generateInstructions no_builtins headers_only_model ''[]'') = Inr []
   \<and> length (requests (snd (generateInstructions no_builtins headers_only_model ''[]''))) = 1"
proof -
  have "sanitizeInstructionSuggestions no_builtins
          (JArr [JStr ''Individual Suggestions:'', JStr ''Integration Suggestions:'']) = []"
    by (simp add: sanitize_eval)
  from generate_returns_empty [of headers_only_model "''[]''" _ no_builtins, OF _ _ this]
  show ?thesis by (simp add: headers_only_model_def)
qed

text \<open>
  C2 (as amended). The request of attempt number \<open>n\<close>, counted from 0, is made at
  temperature \<open>min(0.3 * n, 1.0)\<close> as double arithmetic computes it. With \<open>MAX_RETRIES = 3\<close>
  there are four attempts, the first and three retries: when every attempt is rejected
  the temperatures are the doubles \<open>0\<close>, \<open>0.3\<close>, \<open>0.6\<close> and \<open>0.8999999999999999\<close>, the last being
  the rounded product \<open>0.3 * 3\<close>, one unit in the last place below the double \<open>0.9\<close>; and
  the error thrown is that of the fourth attempt.
\<close>

theorem attempt_temperatures_and_last_error:
  "(\<forall>k < length (requests (snd (generateInstructions js llm sys))).
       snd (requests (snd (generateInstructions js llm sys)) ! k)
         = min (binary64 (binary64 (3 / 10) * of_nat k)) 1)
   \<and> length (requests (snd (generateInstructions js llm sys))) \<le> 4
   \<and> ((\<forall>msgs n. \<exists>e. attempt_result js llm msgs n = Inl e) \<longrightarrow>
        map snd (requests (snd (generateInstructions js llm sys)))
          = [0, 5404319552844595 / 18014398509481984, 5404319552844595 / 9007199254740992,
             2026619832316723 / 2251799813685248]
        \<and> (\<exists>e. fst (generateInstructions js llm sys) = Inl e)
        \<and> fst (generateInstructions js llm sys)
            = attempt_result js llm (fst (last (requests (snd (generateInstructions js llm sys))))) 3)
   \<and> binary64 (3 / 10) = 5404319552844595 / 18014398509481984
   \<and> binary64 (3 / 5) = 5404319552844595 / 9007199254740992
   \<and> binary64 (9 / 10) = 2026619832316723 / 2251799813685248 + 1 / 2 ^ 53"
proof -
  let ?R = "requests (snd (generateInstructions js llm sys))"
  from loop_temperatures [of 0 js llm "initial_messages sys" "\<lparr>requests = [], emitted = []\<rparr>"]
  obtain j where j: "map snd ?R = map attempt_temperature [0 ..< j]" and j4: "j \<le> 4"
    by (auto simp: generateInstructions_def MAX_RETRIES_def)
  then have len: "length ?R = j" by (metis diff_zero length_map length_upt)
  have 1: "snd (?R ! k) = min (binary64 (binary64 (3 / 10) * of_nat k)) 1" if "k < length ?R" for k
  proof -
    from that have "snd (?R ! k) = map snd ?R ! k" by simp
    also from that len have "\<dots> = attempt_temperature k" by (simp add: j)
    finally show ?thesis by (simp only: attempt_temperature_def)
  qed
  have 2: "length ?R \<le> 4" using len j4 by simp
  have 3: "map snd ?R = [0, 5404319552844595 / 18014398509481984, 5404319552844595 / 9007199254740992,
             2026619832316723 / 2251799813685248]
        \<and> (\<exists>e. fst (generateInstructions js llm sys) = Inl e)
        \<and> fst (generateInstructions js llm sys) = attempt_result js llm (fst (last ?R)) 3"
    if rej: "\<forall>msgs n. \<exists>e. attempt_result js llm msgs n = Inl e"
  proof -
    from generate_rejected [OF rej, of sys]
    have t: "map snd ?R = [attempt_temperature 0, attempt_temperature 1, attempt_temperature 2,
                           attempt_temperature 3]"
      and e: "\<exists>e. fst (generateInstructions js llm sys) = Inl e"
      and l: "fst (generateInstructions js llm sys) = attempt_result js llm (fst (last ?R)) 3"
      by blast+
    from t have "map snd ?R = [0, 5404319552844595 / 18014398509481984,
                                5404319552844595 / 9007199254740992, 2026619832316723 / 2251799813685248]"
      by (simp only: attempt_temperature_values)
    with e l show ?thesis by blast
  qed
  have 4: "binary64 (3 / 10) = 5404319552844595 / 18014398509481984"
    "binary64 (3 / 5) = 5404319552844595 / 9007199254740992"
    "binary64 (9 / 10) = 2026619832316723 / 2251799813685248 + 1 / 2 ^ 53"
    by (simp_all add: binary64_literals)
  from 1 2 3 4 show ?thesis by blast
qed

theorem attempt_temperatures_witness:
  "(\<forall>msgs n. \<exists>e. attempt_result no_builtins failing_model msgs n = Inl e)
   \<and> map snd (requests (snd (generateInstructions no_builtins failing_model ''[]'')))
       = [0, 5404319552844595 / 18014398509481984, 5404319552844595 / 9007199254740992,
          2026619832316723 / 2251799813685248]
   \<and> fst (generateInstructions no_builtins failing_model ''[]'') = Inl ''fourth failure''
   \<and> 3 < length (requests (snd (generateInstructions no_builtins failing_model ''[]'')))
   \<and> snd (requests (snd (generateInstructions no_builtins failing_model ''[]'')) ! 3)
       = 2026619832316723 / 2251799813685248
   \<and> snd (requests (snd (generateInstructions no_builtins failing_model ''[]'')) ! 3)
       \<noteq> binary64 (9 / 10)"
proof -
  let ?R = "requests (snd (generateInstructions no_builtins failing_model ''[]''))"
  have "3 / 4 < attempt_temperature 3" by (simp add: attempt_temperature_values)
  then have last: "attempt_result no_builtins failing_model m 3 = Inl ''fourth failure''" for m
    by (simp add: attempt_result_def attemptInstructionGeneration_def failing_model_def Let_def)
  note T = attempt_temperatures_and_last_error [of no_builtins failing_model "''[]''"]
  from T failing_model_rejects [of no_builtins] last
  have m: "map snd ?R = [0, 5404319552844595 / 18014398509481984, 5404319552844595 / 9007199254740992,
                          2026619832316723 / 2251799813685248]"
    and f: "fst (generateInstructions no_builtins failing_model ''[]'') = Inl ''fourth failure''"
    by simp_all
  from m have "length (map snd ?R) = 4" by simp
  then have l: "3 < length ?R" by simp
  with T have "snd (?R ! 3) = min (binary64 (binary64 (3 / 10) * of_nat 3)) 1" by blast
  also have "\<dots> = 2026619832316723 / 2251799813685248"
    using attempt_temperature_values(4) by (simp only: attempt_temperature_def)
  finally have v: "snd (?R ! 3) = 2026619832316723 / 2251799813685248" .
  then have n: "snd (?R ! 3) \<noteq> binary64 (9 / 10)" by (simp add: binary64_literals)
  from m f l v n failing_model_rejects [of no_builtins] show ?thesis by simp
qed

text \<open>
  C2 as stated fails: with a model that always replies with the empty array the
  temperatures are not \<open>0\<close>, \<open>0.3\<close>, \<open>0.6\<close>; a fourth request follows.
\<close>

theorem three_attempt_bound_counterexample:
  "(\<forall>msgs n. \<exists>e. attempt_result no_builtins empty_reply_model msgs n = Inl e)
   \<and> map snd (requests (snd (generateInstructions no_builtins empty_reply_model ''[]'')))
       \<noteq> [0, binary64 (3 / 10), binary64 (3 / 5)]
   \<and> length (requests (snd (generateInstructions no_builtins empty_reply_model ''[]''))) = 4"
proof -
  have r: "\<forall>msgs n. \<exists>e. attempt_result no_builtins empty_reply_model msgs n = Inl e"
    by (simp add: attempt_result_def attemptInstructionGeneration_def empty_reply_model_def Let_def)
  from generate_rejected [OF r, of "''[]''"]
  have "length (map snd (requests (snd (generateInstructions no_builtins empty_reply_model ''[]'')))) = 4"
    by simp
  then have l: "length (requests (snd (generateInstructions no_builtins empty_reply_model ''[]''))) = 4"
    by simp
  then have "length (map snd (requests (snd (generateInstructions no_builtins empty_reply_model ''[]''))))
               \<noteq> length [0, binary64 (3 / 10), binary64 (3 / 5)]"
    by simp
  then have "map snd (requests (snd (generateInstructions no_builtins empty_reply_model ''[]'')))
               \<noteq> [0, binary64 (3 / 10), binary64 (3 / 5)]"
    by fastforce
  with r l show ?thesis by simp
qed

section \<open>Properties of the schema adapters\<close>

lemmas clean_eval = cleanSchemaForGemini.simps strip_meta_def require_all_def object_props_def
  nested_properties_def nested_items_def obj_get_def obj_set_def obj_delete_def obj_keys_def
  index_of_key_def is_digit_def Let_def

lemmas strict_eval = enforceStrictSchema.simps wrap_root_def strict_type_def mark_strict_def
  truthy_prop_def require_keys_def drop_bounds_def obj_get_def obj_set_def obj_delete_def
  obj_keys_def index_of_key_def is_digit_def Let_def

subsection \<open>Gemini\<close>

lemma clean_object:
  "cleanSchemaForGemini (JObj kvs) = Inr r \<Longrightarrow> r = JObj (require_all (strip_meta kvs))"
  by (subst (asm) cleanSchemaForGemini.simps) (simp add: Let_def split: option.splits)

lemma obj_get_delete_other: "k \<noteq> k' \<Longrightarrow> obj_get (obj_delete kvs k') k = obj_get kvs k"
  by (simp add: obj_get_def obj_delete_def delete_conv')

lemma clean_keeps_nested:
  "obj_get (require_all (strip_meta kvs)) ''properties'' = obj_get kvs ''properties''
   \<and> obj_get (require_all (strip_meta kvs)) ''items'' = obj_get kvs ''items''"
  by (cases "object_props (strip_meta kvs)")
     (simp_all add: require_all_def strip_meta_def obj_get_set obj_get_delete_other)

text \<open>
  C3. The claim asks for the markers to be removed and \<open>required\<close> to be written at every
  nested level. On a schema whose property \<open>address\<close> is itself an object schema the
  function cleans the root only: the result carries \<open>address\<close> exactly as it was given,
  still with \<open>additionalProperties\<close> and \<open>optional\<close> and without \<open>required\<close>.
\<close>

theorem cleanSchemaForGemini_leaves_nested_schema:
  "cleanSchemaForGemini nested_address_schema
     = Inr (JObj [(''type'', JStr ''object''),
                  (''properties'', JObj [(''address'', address_schema)]),
                  (''required'', JArr [JStr ''address''])])
   \<and> js_prop address_schema ''additionalProperties'' = Some (JBool False)
   \<and> js_prop address_schema ''optional'' = Some (JBool True)
   \<and> js_prop address_schema ''required'' = None
   \<and> gemini_responseSchema (Some nested_address_schema)
       = Inr (Some (JObj [(''type'', JStr ''object''),
                          (''properties'', JObj [(''address'', address_schema)]),
                          (''required'', JArr [JStr ''address''])]))"
  by (simp add: nested_address_schema_def address_schema_def gemini_responseSchema_def clean_eval)

subsection \<open>OpenAI\<close>

lemma items_read_before_properties:
  "obj_get (obj_set (require_keys s p) ''properties'' q) ''items'' = obj_get s ''items''"
  by (simp add: require_keys_def obj_get_set obj_get_delete_other)

lemma unwrap_results:
  assumes "parse env text = Inr (JObj [(''___results'', v)])"
  shows "parse_and_unwrap env text = Inr (if truthy v then v else JObj [(''___results'', v)])"
  using assms by (simp add: parse_and_unwrap_def obj_get_def)

lemma wrap_non_object_root:
  assumes "obj_get kvs ''type'' \<noteq> Some (JStr ''object'')"
  shows "enforceStrictSchema (JObj kvs) True
           = JObj [(''type'', JStr ''object''),
                   (''properties'', JObj [(''___results'', enforceStrictSchema (JObj kvs) False)]),
                   (''additionalProperties'', JBool False),
                   (''strict'', JBool True),
                   (''required'', JArr [JStr ''___results''])]"
  using assms
  by (subst enforceStrictSchema.simps)
     (simp add: wrap_root_def strict_type_def mark_strict_def truthy_prop_def require_keys_def
        drop_bounds_def obj_get_def obj_set_def obj_delete_def obj_keys_def index_of_key_def
        is_digit_def Let_def)

text \<open>
  C4. The claim asks that, for a root schema that is not an object, the reply of the
  vendor to the wrapped schema is unwrapped again. For the schema of type \<open>number\<close> the
  request carries the schema wrapped under the single key \<open>___results\<close>; when the vendor
  answers with the wrapper around the number 0, \<open>generateObject\<close> returns the wrapper, not
  0: the unwrapping tests the inner value for truthiness.
\<close>

theorem generateObject_keeps_wrapper_around_zero:
  "fst (generateObject zero_env (new_cache None) 0 1 [user_message ''How many?''] (Some number_schema) 0)
     = Inr \<lparr> response = JObj [(''___results'', JNum 0)],
             messages = [user_message ''How many?'', assistant_message zero_reply] \<rparr>
   \<and> map_option response_format
        (snd (snd (generateObject zero_env (new_cache None) 0 1 [user_message ''How many?'']
                     (Some number_schema) 0)))
       = Some (responseFormat
                 (Some (JObj [(''type'', JStr ''object''),
                              (''properties'', JObj [(''___results'', number_schema)]),
                              (''additionalProperties'', JBool False),
                              (''strict'', JBool True),
                              (''required'', JArr [JStr ''___results''])])))
   \<and> parse zero_env zero_reply = Inr (JObj [(''___results'', JNum 0)])
   \<and> JObj [(''___results'', JNum 0)] \<noteq> JNum 0"
  by (simp add: generateObject_def zero_env_def number_schema_def strict_schema_def o_model_def
      model_name_def parse_and_unwrap_def new_cache_def or_default_def cache_set_def cache_get_def
      enforce_limit_def generateKey_def strict_eval)

end
